theory Spec2Isabelle
  imports Complex_Main
begin

section \<open>Numbers\<close>

text \<open>
  The program computes with the \<^verbatim>\<open>number\<close> type of TypeScript: binary64 floating
  point. A value is a finite number, one of the two infinities \<open>PInf\<close> and \<open>NInf\<close>, or
  \<open>NaN\<close>. The operations of this section are the exact reading of the arithmetic: they
  compute with the real numbers and do not round, and a special value arises from
  finite operands only in a division by zero. The binary64 reading, which rounds every
  result as the code does, follows in the next section. There is one zero: a zero
  divisor counts as \<open>+0\<close>.
\<close>

datatype number = Fin real | PInf | NInf | NaN

fun is_finite :: "number \<Rightarrow> bool" where
  "is_finite (Fin a) = True"
| "is_finite _ = False"

fun nneg :: "number \<Rightarrow> number" where
  "nneg (Fin a) = Fin (- a)"
| "nneg PInf = NInf"
| "nneg NInf = PInf"
| "nneg NaN = NaN"

text \<open>\<^verbatim>\<open>a + b\<close>\<close>

fun nadd :: "number \<Rightarrow> number \<Rightarrow> number" where
  "nadd (Fin a) (Fin b) = Fin (a + b)"
| "nadd NaN _ = NaN"
| "nadd _ NaN = NaN"
| "nadd PInf NInf = NaN"
| "nadd NInf PInf = NaN"
| "nadd PInf _ = PInf"
| "nadd _ PInf = PInf"
| "nadd NInf _ = NInf"
| "nadd _ NInf = NInf"

text \<open>\<^verbatim>\<open>a - b\<close>\<close>

definition nsub :: "number \<Rightarrow> number \<Rightarrow> number" where
  "nsub a b = nadd a (nneg b)"

text \<open>\<^verbatim>\<open>a * b\<close>: an infinity times zero is \<open>NaN\<close>, otherwise the signs multiply.\<close>

fun nmul :: "number \<Rightarrow> number \<Rightarrow> number" where
  "nmul (Fin a) (Fin b) = Fin (a * b)"
| "nmul NaN _ = NaN"
| "nmul _ NaN = NaN"
| "nmul PInf (Fin b) = (if b = 0 then NaN else if 0 < b then PInf else NInf)"
| "nmul NInf (Fin b) = (if b = 0 then NaN else if 0 < b then NInf else PInf)"
| "nmul (Fin a) PInf = (if a = 0 then NaN else if 0 < a then PInf else NInf)"
| "nmul (Fin a) NInf = (if a = 0 then NaN else if 0 < a then NInf else PInf)"
| "nmul PInf PInf = PInf"
| "nmul PInf NInf = NInf"
| "nmul NInf PInf = NInf"
| "nmul NInf NInf = PInf"

text \<open>
  \<^verbatim>\<open>a / b\<close>: no error is raised for a zero divisor; \<open>0 / 0\<close> is \<open>NaN\<close> and any other
  finite number over zero is an infinity.
\<close>

fun ndiv :: "number \<Rightarrow> number \<Rightarrow> number" where
  "ndiv (Fin a) (Fin b) =
     (if b \<noteq> 0 then Fin (a / b)
      else if a = 0 then NaN else if 0 < a then PInf else NInf)"
| "ndiv NaN _ = NaN"
| "ndiv _ NaN = NaN"
| "ndiv (Fin a) PInf = Fin 0"
| "ndiv (Fin a) NInf = Fin 0"
| "ndiv PInf (Fin b) = (if 0 \<le> b then PInf else NInf)"
| "ndiv NInf (Fin b) = (if 0 \<le> b then NInf else PInf)"
| "ndiv PInf PInf = NaN"
| "ndiv PInf NInf = NaN"
| "ndiv NInf PInf = NaN"
| "ndiv NInf NInf = NaN"

text \<open>
  \<^verbatim>\<open>a % b\<close>: the remainder of the division truncated towards zero, so the result has
  the sign of \<open>a\<close>.
\<close>

definition trunc :: "real \<Rightarrow> int" where
  "trunc r = (if 0 \<le> r then \<lfloor>r\<rfloor> else \<lceil>r\<rceil>)"

fun nmod :: "number \<Rightarrow> number \<Rightarrow> number" where
  "nmod (Fin a) (Fin b) = (if b = 0 then NaN else Fin (a - b * of_int (trunc (a / b))))"
| "nmod (Fin a) PInf = Fin a"
| "nmod (Fin a) NInf = Fin a"
| "nmod _ _ = NaN"

text \<open>\<^verbatim>\<open>a < b\<close> and \<^verbatim>\<open>a <= b\<close>: every comparison with \<open>NaN\<close> is false.\<close>

fun nlt :: "number \<Rightarrow> number \<Rightarrow> bool" where
  "nlt (Fin a) (Fin b) = (a < b)"
| "nlt NaN _ = False"
| "nlt _ NaN = False"
| "nlt _ NInf = False"
| "nlt PInf _ = False"
| "nlt NInf _ = True"
| "nlt _ PInf = True"

fun nle :: "number \<Rightarrow> number \<Rightarrow> bool" where
  "nle (Fin a) (Fin b) = (a \<le> b)"
| "nle NaN _ = False"
| "nle _ NaN = False"
| "nle NInf _ = True"
| "nle _ PInf = True"
| "nle _ NInf = False"
| "nle PInf _ = False"

text \<open>\<^verbatim>\<open>a >= b\<close>\<close>

definition nge :: "number \<Rightarrow> number \<Rightarrow> bool" where
  "nge a b = nle b a"

text \<open>A loop counter or a pixel dimension read as a number.\<close>

definition num :: "nat \<Rightarrow> number" where
  "num n = Fin (real n)"

section \<open>Binary64 arithmetic\<close>

text \<open>
  The code computes in binary64: every operation returns the binary64 number nearest to
  the exact result, ties going to the even significand, and a result of magnitude
  \<open>2^1024\<close> or more after rounding is an infinity. \<open>rne\<close> rounds a real to the nearest
  integer, ties to even. \<open>expo\<close> is the binary exponent of a real, found by a search
  upwards from the smallest normal exponent \<open>-1022\<close> (below it the numbers are
  subnormal and share that exponent) to \<open>1024\<close>. \<open>round64\<close> rounds to 53 significant
  bits at that exponent.
\<close>

definition rne :: "real \<Rightarrow> int" where
  "rne q = (let f = \<lfloor>q\<rfloor>; d = q - of_int f
            in if d < 1 / 2 then f else if 1 / 2 < d then f + 1
               else if even f then f else f + 1)"

fun find_expo :: "nat \<Rightarrow> int \<Rightarrow> real \<Rightarrow> int" where
  "find_expo 0 e a = e"
| "find_expo (Suc n) e a = (if 2 powi (e + 1) \<le> a then find_expo n (e + 1) a else e)"

definition expo :: "real \<Rightarrow> int" where
  "expo r = find_expo 2046 (- 1022) \<bar>r\<bar>"

definition huge :: real where
  "huge = 2 ^ 1024"

definition round64 :: "real \<Rightarrow> number" where
  "round64 r =
     (let u = 2 powi (expo r - 52);
          v = of_int (rne (r / u)) * u
      in if huge \<le> \<bar>v\<bar> then (if 0 < r then PInf else NInf) else Fin v)"

text \<open>The rounding of a result; the special values stay as they are.\<close>

fun fl :: "number \<Rightarrow> number" where
  "fl (Fin r) = round64 r"
| "fl z = z"

text \<open>The reals that are binary64 numbers, and the value of a decimal literal.\<close>

definition is_double :: "real \<Rightarrow> bool" where
  "is_double r \<longleftrightarrow> round64 r = Fin r"

definition lit :: "real \<Rightarrow> number" where
  "lit q = round64 q"

text \<open>
  \<^verbatim>\<open>a + b\<close>, \<^verbatim>\<open>a - b\<close>, \<^verbatim>\<open>a * b\<close> and \<^verbatim>\<open>a / b\<close> in binary64. The remainder
  \<^verbatim>\<open>a % b\<close> of two binary64 numbers is a binary64 number, so \<open>nmod\<close> serves for both
  readings, and so do the comparisons.
\<close>

definition fadd :: "number \<Rightarrow> number \<Rightarrow> number" where
  "fadd a b = fl (nadd a b)"

definition fsub :: "number \<Rightarrow> number \<Rightarrow> number" where
  "fsub a b = fl (nsub a b)"

definition fmul :: "number \<Rightarrow> number \<Rightarrow> number" where
  "fmul a b = fl (nmul a b)"

definition fdiv :: "number \<Rightarrow> number \<Rightarrow> number" where
  "fdiv a b = fl (ndiv a b)"

section \<open>Points, rectangles and the canvas\<close>

record Point =
  x :: number
  y :: number

record Rect =
  w :: number
  h :: number

text \<open>
  The canvas element: \<^verbatim>\<open>canvas.width\<close> and \<^verbatim>\<open>canvas.height\<close> are unsigned integers,
  \<open>cursor\<close> is \<^verbatim>\<open>canvas.style.cursor\<close>.
\<close>

record Canvas =
  width :: nat
  height :: nat
  cursor :: string

section \<open>The coordinate mapper\<close>

text \<open>
  \<^verbatim>\<open>function map(v, fmin, fmax, tmin, tmax) {
    return (v - fmin) / (fmax - fmin) * (tmax - tmin) + tmin; }\<close>
\<close>

definition map' :: "number \<Rightarrow> number \<Rightarrow> number \<Rightarrow> number \<Rightarrow> number \<Rightarrow> number" where
  "map' v fmin fmax tmin tmax =
     nadd (nmul (ndiv (nsub v fmin) (nsub fmax fmin)) (nsub tmax tmin)) tmin"

text \<open>The mapper in binary64 arithmetic.\<close>

definition map64 :: "number \<Rightarrow> number \<Rightarrow> number \<Rightarrow> number \<Rightarrow> number \<Rightarrow> number" where
  "map64 v fmin fmax tmin tmax =
     fadd (fmul (fdiv (fsub v fmin) (fsub fmax fmin)) (fsub tmax tmin)) tmin"

section \<open>The plot view\<close>

record PlotView =
  center :: Point
  size' :: Rect

definition top_left :: "PlotView \<Rightarrow> Point" where
  "top_left this =
     \<lparr>x = nsub (x (center this)) (ndiv (w (size' this)) (Fin 2)),
      y = nadd (y (center this)) (ndiv (h (size' this)) (Fin 2))\<rparr>"

definition bottom_right :: "PlotView \<Rightarrow> Point" where
  "bottom_right this =
     \<lparr>x = nadd (x (top_left this)) (w (size' this)),
      y = nsub (y (top_left this)) (h (size' this))\<rparr>"


definition unproject :: "Canvas \<Rightarrow> PlotView \<Rightarrow> Point \<Rightarrow> Point" where
  "unproject canvas this point =
     (let br = bottom_right this;
          tl = top_left this
      in \<lparr>x = map' (x point) (Fin 0) (num (width canvas)) (x tl) (x br),
          y = map' (y point) (num (height canvas)) (Fin 0) (y br) (y tl)\<rparr>)"

text \<open>The corners and the two projections in binary64 arithmetic.\<close>

definition top_left64 :: "PlotView \<Rightarrow> Point" where
  "top_left64 this =
     \<lparr>x = fsub (x (center this)) (fdiv (w (size' this)) (Fin 2)),
      y = fadd (y (center this)) (fdiv (h (size' this)) (Fin 2))\<rparr>"

definition bottom_right64 :: "PlotView \<Rightarrow> Point" where
  "bottom_right64 this =
     \<lparr>x = fadd (x (top_left64 this)) (w (size' this)),
      y = fsub (y (top_left64 this)) (h (size' this))\<rparr>"

definition project64 :: "Canvas \<Rightarrow> PlotView \<Rightarrow> Point \<Rightarrow> Point" where
  "project64 canvas this point =
     (let cx = x (center this);
          cy = y (center this);
          w0 = w (size' this);
          h0 = h (size' this)
      in \<lparr>x = map64 (x point) (fsub cx (fdiv w0 (Fin 2))) (fadd cx (fdiv w0 (Fin 2)))
                 (Fin 0) (num (width canvas)),
          y = map64 (y point) (fsub cy (fdiv h0 (Fin 2))) (fadd cy (fdiv h0 (Fin 2)))
                 (num (height canvas)) (Fin 0)\<rparr>)"


section \<open>The function sampler\<close>

text \<open>
  \<^verbatim>\<open>new Array<Point>(samples)\<close> raises a \<^verbatim>\<open>RangeError\<close> unless \<open>samples\<close> is an
  integer between \<open>0\<close> and \<open>2^32 - 1\<close>. The sample count is a natural number here, so
  only the upper limit is left as a branch.
\<close>

datatype error = RangeError

text \<open>
  The loop of \<^verbatim>\<open>sample\<close>. The new array holds \<open>samples\<close> empty slots (\<open>None\<close>);
  iteration \<open>i\<close> stores a point at index \<open>i\<close>, which is always in range.
\<close>

function sample_loop ::
  "(number \<Rightarrow> number) \<Rightarrow> number \<Rightarrow> number \<Rightarrow> nat \<Rightarrow> nat \<Rightarrow> Point option list
     \<Rightarrow> Point option list" where
  "sample_loop fn start end' samples i out =
     (if i < samples then
        (let x0 = map' (num i) (Fin 0) (nsub (num samples) (Fin 1)) start end'
         in sample_loop fn start end' samples (Suc i)
              (out[i := Some \<lparr>x = x0, y = fn x0\<rparr>]))
      else out)"
  by pat_completeness auto

termination
  by (relation "measure (\<lambda>(fn, start, end', samples, i, out). samples - i)") auto

definition sample ::
  "(number \<Rightarrow> number) \<Rightarrow> number \<Rightarrow> number \<Rightarrow> nat \<Rightarrow> error + Point option list" where
  "sample fn start end' samples =
     (if samples > 4294967295 then Inl RangeError
      else Inr (sample_loop fn start end' samples 0 (replicate samples None)))"

text \<open>The sampler in binary64 arithmetic.\<close>

function sample_loop64 ::
  "(number \<Rightarrow> number) \<Rightarrow> number \<Rightarrow> number \<Rightarrow> nat \<Rightarrow> nat \<Rightarrow> Point option list
     \<Rightarrow> Point option list" where
  "sample_loop64 fn start end' samples i out =
     (if i < samples then
        (let x0 = map64 (num i) (Fin 0) (fsub (num samples) (Fin 1)) start end'
         in sample_loop64 fn start end' samples (Suc i)
              (out[i := Some \<lparr>x = x0, y = fn x0\<rparr>]))
      else out)"
  by pat_completeness auto

termination
  by (relation "measure (\<lambda>(fn, start, end', samples, i, out). samples - i)") auto

definition sample64 ::
  "(number \<Rightarrow> number) \<Rightarrow> number \<Rightarrow> number \<Rightarrow> nat \<Rightarrow> error + Point option list" where
  "sample64 fn start end' samples =
     (if samples > 4294967295 then Inl RangeError
      else Inr (sample_loop64 fn start end' samples 0 (replicate samples None)))"

section \<open>The numerical integrator\<close>

text \<open>
  \<open>width0\<close> is the constant \<^verbatim>\<open>width\<close> of \<^verbatim>\<open>integrate\<close>, \<open>x0\<close> and \<open>y0\<close> are the
  \<^verbatim>\<open>x\<close> and \<^verbatim>\<open>y\<close> of the loop body.
\<close>

function integrate_loop ::
  "(number \<Rightarrow> number) \<Rightarrow> number \<Rightarrow> number \<Rightarrow> nat \<Rightarrow> number \<Rightarrow> nat \<Rightarrow> number
     \<Rightarrow> number" where
  "integrate_loop f start end' samples width0 i area =
     (if i < samples then
        (let x0 = map' (num i) (Fin 0) (nsub (num samples) (Fin 1)) start end';
             y0 = f x0
         in integrate_loop f start end' samples width0 (Suc i) (nadd area (nmul width0 y0)))
      else area)"
  by pat_completeness auto

termination
  by (relation "measure (\<lambda>(f, start, end', samples, width0, i, area). samples - i)") auto

definition integrate :: "(number \<Rightarrow> number) \<Rightarrow> number \<Rightarrow> number \<Rightarrow> nat \<Rightarrow> number" where
  "integrate f start end' samples =
     (let width0 = map' (Fin 1) (Fin 0) (nsub (num samples) (Fin 1)) start end'
      in integrate_loop f start end' samples width0 0 (Fin 0))"

text \<open>
  The integrator as the specification words it: the step is the distance between
  consecutive sample points, and the result is the sum of \<open>step * fn(x_i)\<close> over the
  \<open>n\<close> sample points, added in the order of the indices.
\<close>

definition spec_step :: "number \<Rightarrow> number \<Rightarrow> nat \<Rightarrow> number" where
  "spec_step start end' n =
     nsub (map' (Fin 1) (Fin 0) (nsub (num n) (Fin 1)) start end')
          (map' (Fin 0) (Fin 0) (nsub (num n) (Fin 1)) start end')"

definition spec_integrate :: "(number \<Rightarrow> number) \<Rightarrow> number \<Rightarrow> number \<Rightarrow> nat \<Rightarrow> number" where
  "spec_integrate f start end' n =
     foldl (\<lambda>area i. nadd area (nmul (spec_step start end' n)
                       (f (map' (num i) (Fin 0) (nsub (num n) (Fin 1)) start end'))))
       (Fin 0) [0..<n]"

section \<open>The grid\<close>

text \<open>
  The drawing context is an external collaborator. The model keeps what the calls of
  \<^verbatim>\<open>grid\<close> set and produce: the stroke style, the line width, the current path and the
  strokes made so far, each with the path, the style and the width that were current at
  the call of \<^verbatim>\<open>stroke\<close>. Coordinates are recorded as they are passed.
\<close>

datatype Seg = MoveTo number number | LineTo number number

record Stroke =
  s_path :: "Seg list"
  s_style :: string
  s_width :: number

record Ctx =
  strokeStyle :: string
  lineWidth :: number
  path :: "Seg list"
  drawn :: "Stroke list"

definition beginPath :: "Ctx \<Rightarrow> Ctx" where
  "beginPath ctx = ctx\<lparr>path := []\<rparr>"

definition moveTo :: "number \<Rightarrow> number \<Rightarrow> Ctx \<Rightarrow> Ctx" where
  "moveTo a b ctx = ctx\<lparr>path := path ctx @ [MoveTo a b]\<rparr>"

definition lineTo :: "number \<Rightarrow> number \<Rightarrow> Ctx \<Rightarrow> Ctx" where
  "lineTo a b ctx = ctx\<lparr>path := path ctx @ [LineTo a b]\<rparr>"

definition stroke :: "Ctx \<Rightarrow> Ctx" where
  "stroke ctx =
     ctx\<lparr>drawn := drawn ctx
            @ [\<lparr>s_path = path ctx, s_style = strokeStyle ctx, s_width = lineWidth ctx\<rparr>]\<rparr>"

text \<open>
  The body of the first loop of \<^verbatim>\<open>grid\<close>: one vertical line at plot coordinate \<open>gx\<close>
  (the \<^verbatim>\<open>x\<close> of the loop), in binary64 arithmetic; \<open>0.01\<close>, \<open>0.8\<close> and \<open>0.2\<close> are the
  literals of the source.
\<close>

definition grid_body1 :: "Canvas \<Rightarrow> PlotView \<Rightarrow> number \<Rightarrow> Ctx \<Rightarrow> Ctx" where
  "grid_body1 canvas this gx ctx =
     (let point = project64 canvas this \<lparr>x = gx, y = Fin 0\<rparr>;
          ctx1 = (if nlt (nmod gx (Fin 1)) (lit (1 / 100))
                  then ctx\<lparr>strokeStyle := ''rgba(0, 0, 0, 0.3)'', lineWidth := lit (8 / 10)\<rparr>
                  else ctx\<lparr>strokeStyle := ''rgba(0, 0, 0, 0.3)'', lineWidth := lit (2 / 10)\<rparr>)
      in stroke (lineTo (x point) (num (height canvas))
           (moveTo (x point) (Fin 0) (beginPath ctx1))))"

text \<open>
  \<^verbatim>\<open>for (let x = granularity; x <= view.bottom_right.x; x += granularity)\<close>: the loop
  need not end (a granularity that is not positive, or one so small that the sum rounds
  back to \<open>x\<close>), so not returning is \<open>None\<close>.
\<close>

partial_function (option) grid_loop1 ::
  "Canvas \<Rightarrow> PlotView \<Rightarrow> number \<Rightarrow> number \<Rightarrow> Ctx \<Rightarrow> Ctx option" where
  "grid_loop1 canvas this granularity gx ctx =
     (if nle gx (x (bottom_right64 this))
      then grid_loop1 canvas this granularity (fadd gx granularity)
             (grid_body1 canvas this gx ctx)
      else Some ctx)"

text \<open>The bodies of the three other loops draw with the width set before the loop.\<close>

definition grid_body_x :: "Canvas \<Rightarrow> PlotView \<Rightarrow> number \<Rightarrow> Ctx \<Rightarrow> Ctx" where
  "grid_body_x canvas this gx ctx =
     (let point = project64 canvas this \<lparr>x = gx, y = Fin 0\<rparr>
      in stroke (lineTo (x point) (num (height canvas))
           (moveTo (x point) (Fin 0) (beginPath ctx))))"

definition grid_body_y :: "Canvas \<Rightarrow> PlotView \<Rightarrow> number \<Rightarrow> Ctx \<Rightarrow> Ctx" where
  "grid_body_y canvas this gy ctx =
     (let point = project64 canvas this \<lparr>x = Fin 0, y = gy\<rparr>
      in stroke (lineTo (num (width canvas)) (y point)
           (moveTo (Fin 0) (y point) (beginPath ctx))))"

partial_function (option) grid_loop2 ::
  "Canvas \<Rightarrow> PlotView \<Rightarrow> number \<Rightarrow> number \<Rightarrow> Ctx \<Rightarrow> Ctx option" where
  "grid_loop2 canvas this granularity gx ctx =
     (if nge gx (x (top_left64 this))
      then grid_loop2 canvas this granularity (fsub gx granularity)
             (grid_body_x canvas this gx ctx)
      else Some ctx)"

partial_function (option) grid_loop3 ::
  "Canvas \<Rightarrow> PlotView \<Rightarrow> number \<Rightarrow> number \<Rightarrow> Ctx \<Rightarrow> Ctx option" where
  "grid_loop3 canvas this granularity gy ctx =
     (if nle gy (y (top_left64 this))
      then grid_loop3 canvas this granularity (fadd gy granularity)
             (grid_body_y canvas this gy ctx)
      else Some ctx)"

partial_function (option) grid_loop4 ::
  "Canvas \<Rightarrow> PlotView \<Rightarrow> number \<Rightarrow> number \<Rightarrow> Ctx \<Rightarrow> Ctx option" where
  "grid_loop4 canvas this granularity gy ctx =
     (if nge gy (y (bottom_right64 this))
      then grid_loop4 canvas this granularity (fsub gy granularity)
             (grid_body_y canvas this gy ctx)
      else Some ctx)"

text \<open>
  \<^verbatim>\<open>grid\<close>: the two axes through the projected origin, drawn with style \<^verbatim>\<open>black\<close>
  and width \<open>2\<close>, then the four loops.
\<close>

definition grid_axes :: "Canvas \<Rightarrow> PlotView \<Rightarrow> Ctx \<Rightarrow> Ctx" where
  "grid_axes canvas this ctx =
     (let ctx1 = ctx\<lparr>strokeStyle := ''black'', lineWidth := Fin 2\<rparr>;
          origin = project64 canvas this \<lparr>x = Fin 0, y = Fin 0\<rparr>;
          ctx2 = stroke (lineTo (num (width canvas)) (y origin)
                   (moveTo (Fin 0) (y origin) (beginPath ctx1)));
          ctx3 = stroke (lineTo (x origin) (num (height canvas))
                   (moveTo (x origin) (Fin 0) (beginPath ctx2)))
      in ctx3\<lparr>strokeStyle := ''rgba(0, 0, 0, 0.3)'', lineWidth := lit (2 / 10)\<rparr>)"

definition grid :: "Canvas \<Rightarrow> PlotView \<Rightarrow> number \<Rightarrow> Ctx \<Rightarrow> Ctx option" where
  "grid canvas this granularity ctx =
     (case grid_loop1 canvas this granularity granularity (grid_axes canvas this ctx) of
        None \<Rightarrow> None
      | Some ctx1 \<Rightarrow>
         (case grid_loop2 canvas this granularity granularity
                 (ctx1\<lparr>strokeStyle := ''rgba(0, 0, 0, 0.3)'', lineWidth := lit (2 / 10)\<rparr>) of
            None \<Rightarrow> None
          | Some ctx2 \<Rightarrow>
             (case grid_loop3 canvas this granularity granularity ctx2 of
                None \<Rightarrow> None
              | Some ctx3 \<Rightarrow> grid_loop4 canvas this granularity granularity ctx3)))"

text \<open>
  The two strokes of the axes and the path of the vertical line at plot coordinate \<open>gx\<close>,
  as the code builds them.
\<close>

definition axis_h :: "Canvas \<Rightarrow> PlotView \<Rightarrow> Stroke" where
  "axis_h canvas this =
     (let origin = project64 canvas this \<lparr>x = Fin 0, y = Fin 0\<rparr>
      in \<lparr>s_path = [MoveTo (Fin 0) (y origin), LineTo (num (width canvas)) (y origin)],
          s_style = ''black'', s_width = Fin 2\<rparr>)"

definition axis_v :: "Canvas \<Rightarrow> PlotView \<Rightarrow> Stroke" where
  "axis_v canvas this =
     (let origin = project64 canvas this \<lparr>x = Fin 0, y = Fin 0\<rparr>
      in \<lparr>s_path = [MoveTo (x origin) (Fin 0), LineTo (x origin) (num (height canvas))],
          s_style = ''black'', s_width = Fin 2\<rparr>)"

definition vline :: "Canvas \<Rightarrow> PlotView \<Rightarrow> number \<Rightarrow> Seg list" where
  "vline canvas this gx =
     (let point = project64 canvas this \<lparr>x = gx, y = Fin 0\<rparr>
      in [MoveTo (x point) (Fin 0), LineTo (x point) (num (height canvas))])"

text \<open>
  The statement about the grid: the line at coordinate \<open>a\<close> has the heavy width \<open>0.8\<close>
  when \<open>a\<close> is less than \<open>0.01\<close> above the integer below it, and the light width \<open>0.2\<close>
  otherwise. \<open>spec_stroke\<close> is the stroke of the vertical line at \<open>a\<close> with that width.
\<close>

definition spec_line_width :: "real \<Rightarrow> number" where
  "spec_line_width a = (if a - of_int \<lfloor>a\<rfloor> < 1 / 100 then lit (8 / 10) else lit (2 / 10))"

definition spec_stroke :: "Canvas \<Rightarrow> PlotView \<Rightarrow> real \<Rightarrow> Stroke" where
  "spec_stroke canvas this a =
     \<lparr>s_path = vline canvas this (Fin a),
      s_style = ''rgba(0, 0, 0, 0.3)'',
      s_width = spec_line_width a\<rparr>"

section \<open>The interaction controller\<close>

record DragData =
  pointer_id :: int
  start :: Point
  view :: PlotView

text \<open>
  The globals that the listeners read and write: the canvas, the live view
  (\<^verbatim>\<open>view\<close>) and the drag session (\<^verbatim>\<open>dragging\<close>, \<open>None\<close> for \<^verbatim>\<open>undefined\<close>).
\<close>

record State =
  g_canvas :: Canvas
  g_view :: PlotView
  g_dragging :: "DragData option"

text \<open>A pointer event: \<open>pos\<close> holds \<^verbatim>\<open>e.x\<close> and \<^verbatim>\<open>e.y\<close>.\<close>

record PointerEvent =
  pointerId :: int
  pos :: Point

definition pointerdown :: "PointerEvent \<Rightarrow> State \<Rightarrow> State" where
  "pointerdown e s =
     (case g_dragging s of
        Some d \<Rightarrow> s
      | None \<Rightarrow>
          s\<lparr>g_canvas := (g_canvas s)\<lparr>cursor := ''grabbing''\<rparr>,
            g_dragging := Some
              \<lparr>pointer_id = pointerId e,
               start = unproject (g_canvas s) (g_view s) \<lparr>x = x (pos e), y = y (pos e)\<rparr>,
               view = \<lparr>center = \<lparr>x = x (center (g_view s)), y = y (center (g_view s))\<rparr>,
                       size' = \<lparr>w = w (size' (g_view s)), h = h (size' (g_view s))\<rparr>\<rparr>\<rparr>\<rparr>)"

definition pointermove :: "PointerEvent \<Rightarrow> State \<Rightarrow> State" where
  "pointermove e s =
     (case g_dragging s of
        None \<Rightarrow> s
      | Some d \<Rightarrow>
          if pointer_id d \<noteq> pointerId e then s
          else
            (let point = unproject (g_canvas s) (view d) \<lparr>x = x (pos e), y = y (pos e)\<rparr>;
                 diff = \<lparr>x = nsub (x point) (x (start d)),
                         y = nsub (y (start d)) (y point)\<rparr>
             in s\<lparr>g_view := (g_view s)
                    \<lparr>center := \<lparr>x = nsub (x (center (view d))) (x diff),
                                 y = nadd (y (center (view d))) (y diff)\<rparr>\<rparr>\<rparr>))"

definition pointerup :: "PointerEvent \<Rightarrow> State \<Rightarrow> State" where
  "pointerup e s =
     (case g_dragging s of
        None \<Rightarrow> s
      | Some d \<Rightarrow>
          if pointer_id d \<noteq> pointerId e then s
          else s\<lparr>g_canvas := (g_canvas s)\<lparr>cursor := []\<rparr>, g_dragging := None\<rparr>)"

text \<open>The wheel listener; \<open>dy\<close> is \<^verbatim>\<open>e.deltaY\<close>.\<close>

definition wheel :: "number \<Rightarrow> State \<Rightarrow> State" where
  "wheel dy s =
     (let w0 = w (size' (g_view s));
          h0 = h (size' (g_view s))
      in s\<lparr>g_view := (g_view s)
             \<lparr>size' := \<lparr>w = nadd w0 (ndiv (nmul (nmul w0 (Fin (1 / 10))) dy) (Fin 125)),
                        h = nadd h0 (ndiv (nmul (nmul h0 (Fin (1 / 10))) dy) (Fin 125))\<rparr>\<rparr>\<rparr>)"

text \<open>The wheel listener in binary64 arithmetic; \<open>0.1\<close> is the literal of the source.\<close>

definition wheel64 :: "number \<Rightarrow> State \<Rightarrow> State" where
  "wheel64 dy s =
     (let w0 = w (size' (g_view s));
          h0 = h (size' (g_view s))
      in s\<lparr>g_view := (g_view s)
             \<lparr>size' := \<lparr>w = fadd w0 (fdiv (fmul (fmul w0 (lit (1 / 10))) dy) (Fin 125)),
                        h = fadd h0 (fdiv (fmul (fmul h0 (lit (1 / 10))) dy) (Fin 125))\<rparr>\<rparr>\<rparr>)"

text \<open>
  The resize observer stores the observed size in the canvas; the arguments are the
  dimensions as the canvas keeps them.
\<close>

definition resize :: "nat \<Rightarrow> nat \<Rightarrow> State \<Rightarrow> State" where
  "resize rw rh s = s\<lparr>g_canvas := (g_canvas s)\<lparr>width := rw, height := rh\<rparr>\<rparr>"

text \<open>The events that the listeners are registered for, and their dispatch.\<close>

datatype Event =
    PointerDown PointerEvent
  | PointerMove PointerEvent
  | PointerUp PointerEvent
  | Wheel number
  | Resize nat nat

fun handle :: "Event \<Rightarrow> State \<Rightarrow> State" where
  "handle (PointerDown e) s = pointerdown e s"
| "handle (PointerMove e) s = pointermove e s"
| "handle (PointerUp e) s = pointerup e s"
| "handle (Wheel dy) s = wheel dy s"
| "handle (Resize rw rh) s = resize rw rh s"

section \<open>Concrete inputs\<close>

text \<open>
  A view with finite centre and size (\<^verbatim>\<open>new PlotView({x: cx, y: cy}, {w: vw, h: vh})\<close>),
  the view that the program creates (centre \<open>(2, 0)\<close>, size \<open>(4, 8)\<close>), an 800 by 600
  canvas, a canvas of width zero, the state with that view on the 800 by 600 canvas and
  no drag, a pointer event at a finite position, and a constant function.
\<close>

definition plot_view :: "real \<Rightarrow> real \<Rightarrow> real \<Rightarrow> real \<Rightarrow> PlotView" where
  "plot_view cx cy vw vh =
     \<lparr>center = \<lparr>x = Fin cx, y = Fin cy\<rparr>, size' = \<lparr>w = Fin vw, h = Fin vh\<rparr>\<rparr>"

definition view0 :: PlotView where
  "view0 = \<lparr>center = \<lparr>x = Fin 2, y = Fin 0\<rparr>, size' = \<lparr>w = Fin 4, h = Fin 8\<rparr>\<rparr>"

definition canvas800 :: Canvas where
  "canvas800 = \<lparr>width = 800, height = 600, cursor = []\<rparr>"


definition state0 :: State where
  "state0 = \<lparr>g_canvas = canvas800, g_view = view0, g_dragging = None\<rparr>"

definition pointer_at :: "int \<Rightarrow> real \<Rightarrow> real \<Rightarrow> PointerEvent" where
  "pointer_at pid a b = \<lparr>pointerId = pid, pos = \<lparr>x = Fin a, y = Fin b\<rparr>\<rparr>"

definition one_fn :: "number \<Rightarrow> number" where
  "one_fn v = Fin 1"

text \<open>
  The drag session that a pointer-down of pointer 1 at screen point \<open>(400, 300)\<close> opens
  on \<open>state0\<close>, and the state after that event.
\<close>

definition drag0 :: DragData where
  "drag0 = \<lparr>pointer_id = 1, start = \<lparr>x = Fin 2, y = Fin 0\<rparr>, view = view0\<rparr>"

definition state_drag :: State where
  "state_drag = pointerdown (pointer_at 1 400 300) state0"

text \<open>
  A state whose view has size \<open>(3, 3)\<close>, a state whose view has for its width and its
  height the binary64 number nearest to \<open>0.7\<close>, a view centred far from the origin, and
  a new drawing context.
\<close>

definition state_size3 :: State where
  "state_size3 = \<lparr>g_canvas = canvas800, g_view = plot_view 2 0 3 3, g_dragging = None\<rparr>"

definition state_size07 :: State where
  "state_size07 =
     \<lparr>g_canvas = canvas800,
      g_view = plot_view 2 0 (3152519739159347 / 4503599627370496)
                 (3152519739159347 / 4503599627370496),
      g_dragging = None\<rparr>"


definition ctx0 :: Ctx where
  "ctx0 = \<lparr>strokeStyle = ''#000000'', lineWidth = Fin 1, path = [], drawn = []\<rparr>"

section \<open>Basic facts\<close>

declare sample_loop.simps [simp del] integrate_loop.simps [simp del]
  sample_loop64.simps [simp del]

lemma num_Fin [simp]: "num n = Fin (real n)"
  by (simp add: num_def)

lemma point_eta [simp]: "\<lparr>x = x p, y = y p\<rparr> = (p::Point)"
  by (cases p) simp

lemma not_finite_nmul: "\<not> is_finite a \<Longrightarrow> \<not> is_finite (nmul a b)"
  by (cases a; cases b) simp_all

lemma not_finite_nadd: "\<not> is_finite a \<Longrightarrow> \<not> is_finite (nadd a b)"
  by (cases a; cases b) simp_all

lemma not_finite_nadd2: "\<not> is_finite b \<Longrightarrow> \<not> is_finite (nadd a b)"
  by (cases a; cases b) simp_all

lemma state_drag_eq:
  "state_drag = \<lparr>g_canvas = canvas800\<lparr>cursor := ''grabbing''\<rparr>, g_view = view0,
                  g_dragging = Some drag0\<rparr>"
  by (simp add: state_drag_def drag0_def pointerdown_def state0_def view0_def canvas800_def
      pointer_at_def unproject_def top_left_def bottom_right_def map'_def nsub_def)

section \<open>Binary64 rounding\<close>

text \<open>
  The exponent search finds the binade of its argument; rounding moves a real by at most
  half a unit in the last place; a real with a significand of at most 53 bits at an
  exponent of at least \<open>-1074\<close> is a binary64 number; every finite result of \<open>round64\<close>
  is one; and the difference of two distinct binary64 numbers does not round to zero.
  \<open>round64_eval\<close> evaluates a rounding from the binade and the rounded quotient.
\<close>

lemma p2_less_iff: "(2::real) powi m < 2 powi n \<longleftrightarrow> m < n"
proof
  assume "(2::real) powi m < 2 powi n"
  show "m < n"
  proof (rule ccontr)
    assume "\<not> m < n"
    then have "(2::real) powi n \<le> 2 powi m"
      by (intro power_int_increasing) simp_all
    with \<open>(2::real) powi m < 2 powi n\<close> show False by simp
  qed
next
  assume "m < n"
  then show "(2::real) powi m < 2 powi n"
    by (intro power_int_strict_increasing) simp_all
qed

lemma p2_le_iff: "(2::real) powi m \<le> 2 powi n \<longleftrightarrow> m \<le> n"
  using p2_less_iff [of n m] by (simp add: not_less [symmetric])

lemma find_expo_range: "e \<le> find_expo n e a \<and> find_expo n e a \<le> e + int n"
proof (induction n arbitrary: e)
  case 0
  show ?case by simp
next
  case (Suc n)
  from Suc [of "e + 1"] show ?case by simp
qed

lemma find_expo_lower: "find_expo n e a \<noteq> e \<Longrightarrow> 2 powi (find_expo n e a) \<le> a"
proof (induction n arbitrary: e)
  case 0
  then show ?case by simp
next
  case (Suc n)
  show ?case
  proof (cases "2 powi (e + 1) \<le> a")
    case True
    show ?thesis
    proof (cases "find_expo n (e + 1) a = e + 1")
      case True
      with \<open>2 powi (e + 1) \<le> a\<close> show ?thesis by simp
    next
      case False
      from Suc.IH [OF this] True show ?thesis by simp
    qed
  next
    case False
    with Suc.prems show ?thesis by simp
  qed
qed

lemma find_expo_upper: "find_expo n e a < e + int n \<Longrightarrow> a < 2 powi (find_expo n e a + 1)"
proof (induction n arbitrary: e)
  case 0
  then show ?case by simp
next
  case (Suc n)
  show ?case
  proof (cases "2 powi (e + 1) \<le> a")
    case True
    with Suc.prems have "find_expo n (e + 1) a < (e + 1) + int n" by simp
    from Suc.IH [OF this] True show ?thesis by simp
  next
    case False
    then show ?thesis by simp
  qed
qed

lemma find_expo_eq:
  "e \<le> k \<Longrightarrow> k - e \<le> int n \<Longrightarrow> 2 powi k \<le> a \<Longrightarrow> a < 2 powi (k + 1)
     \<Longrightarrow> find_expo n e a = k"
proof (induction n arbitrary: e)
  case 0
  then show ?case by simp
next
  case (Suc n)
  show ?case
  proof (cases "2 powi (e + 1) \<le> a")
    case True
    have "e + 1 \<le> k"
    proof (rule ccontr)
      assume "\<not> e + 1 \<le> k"
      then have "k + 1 \<le> e + 1" by simp
      then have "(2::real) powi (k + 1) \<le> 2 powi (e + 1)"
        by (simp add: p2_le_iff)
      with True Suc.prems show False by simp
    qed
    with Suc True show ?thesis by simp
  next
    case False
    then have "(2::real) powi k < 2 powi (e + 1)"
      using Suc.prems by simp
    then have "k < e + 1"
      by (simp add: p2_less_iff)
    with Suc.prems False show ?thesis by simp
  qed
qed

lemma find_expo_small: "a < 2 powi (e + 1) \<Longrightarrow> find_expo n e a = e"
  by (cases n) simp_all

lemma expo_range: "- 1022 \<le> expo r \<and> expo r \<le> 1024"
  using find_expo_range [of "- 1022" 2046 "\<bar>r\<bar>"] by (simp add: expo_def)

lemma expo_lower: "expo r \<noteq> - 1022 \<Longrightarrow> 2 powi (expo r) \<le> \<bar>r\<bar>"
  unfolding expo_def by (rule find_expo_lower)

lemma expo_upper: "expo r \<noteq> 1024 \<Longrightarrow> \<bar>r\<bar> < 2 powi (expo r + 1)"
proof -
  assume "expo r \<noteq> 1024"
  with expo_range [of r] have "find_expo 2046 (- 1022) \<bar>r\<bar> < - 1022 + int 2046"
    by (simp add: expo_def)
  from find_expo_upper [OF this] show ?thesis by (simp add: expo_def)
qed

lemma expo_eq:
  "- 1022 \<le> k \<Longrightarrow> k \<le> 1024 \<Longrightarrow> 2 powi k \<le> \<bar>r\<bar> \<Longrightarrow> \<bar>r\<bar> < 2 powi (k + 1) \<Longrightarrow> expo r = k"
  unfolding expo_def by (rule find_expo_eq) simp_all

lemma expo_small: "\<bar>r\<bar> < 2 powi (- 1021) \<Longrightarrow> expo r = - 1022"
  unfolding expo_def by (rule find_expo_small) simp

lemma rne_of_int [simp]: "rne (of_int N) = N"
  by (simp add: rne_def)

lemma rne_floor_ceiling: "\<lfloor>q\<rfloor> \<le> rne q \<and> rne q \<le> \<lceil>q\<rceil>"
proof (cases "q = of_int \<lfloor>q\<rfloor>")
  case True
  then have "rne q = \<lfloor>q\<rfloor>" by (metis rne_of_int)
  then show ?thesis by (simp add: floor_le_ceiling)
next
  case False
  then have "\<lceil>q\<rceil> = \<lfloor>q\<rfloor> + 1"
    by (metis ceiling_altdef)
  then show ?thesis by (simp add: rne_def Let_def)
qed

lemma rne_lower: "of_int N \<le> q \<Longrightarrow> N \<le> rne q"
proof -
  assume "of_int N \<le> q"
  then have "N \<le> \<lfloor>q\<rfloor>" by (simp add: le_floor_iff)
  with rne_floor_ceiling [of q] show ?thesis by linarith
qed

lemma rne_upper: "q \<le> of_int N \<Longrightarrow> rne q \<le> N"
proof -
  assume "q \<le> of_int N"
  then have "\<lceil>q\<rceil> \<le> N" by (simp add: ceiling_le_iff)
  with rne_floor_ceiling [of q] show ?thesis by linarith
qed

lemma rne_err: "\<bar>of_int (rne q) - q\<bar> \<le> 1 / 2"
proof -
  have "of_int \<lfloor>q\<rfloor> \<le> q" "q < of_int \<lfloor>q\<rfloor> + 1" by linarith+
  then show ?thesis
    by (auto simp: rne_def Let_def abs_le_iff)
qed

lemma rne_zero: "rne q = 0 \<Longrightarrow> \<bar>q\<bar> \<le> 1 / 2"
  using rne_err [of q] by simp

lemma round64_int_quot:
  assumes "r / 2 powi (expo r - 52) = of_int N" and "\<bar>r\<bar> < huge"
  shows "round64 r = Fin r"
proof -
  have "of_int N * 2 powi (expo r - 52) = r"
    using assms(1) by (simp add: field_simps)
  then show ?thesis
    using assms by (simp add: round64_def Let_def)
qed

lemma round64_exact:
  assumes "\<bar>m\<bar> \<le> 2 ^ 53" and "- 1074 \<le> j" and "\<bar>of_int m * 2 powi j\<bar> < huge"
  shows "round64 (of_int m * 2 powi j) = Fin (of_int m * 2 powi j)"
proof -
  define r :: real where "r = of_int m * 2 powi j"
  define e where "e = expo r"
  have "\<exists>N. r / 2 powi (e - 52) = of_int N"
  proof (cases "e - 52 \<le> j")
    case True
    have "r / 2 powi (e - 52) = of_int m * 2 powi (j - (e - 52))"
      by (simp add: r_def power_int_diff)
    also have "(2::real) powi (j - (e - 52)) = 2 ^ nat (j - (e - 52))"
      using True by (simp add: power_int_nonneg_exp)
    also have "of_int m * (2::real) ^ nat (j - (e - 52)) = of_int (m * 2 ^ nat (j - (e - 52)))"
      by simp
    finally show ?thesis by blast
  next
    case False
    with assms(2) have ne: "e \<noteq> - 1022" by simp
    then have "2 powi e \<le> \<bar>r\<bar>"
      unfolding e_def by (rule expo_lower)
    also have "\<bar>r\<bar> = \<bar>of_int m\<bar> * 2 powi j"
      by (simp add: r_def abs_mult)
    finally have le: "2 powi e \<le> \<bar>real_of_int m\<bar> * 2 powi j" .
    have "\<bar>real_of_int m\<bar> \<le> 2 ^ 53"
      using assms(1) by (metis of_int_abs of_int_le_numeral_power_cancel_iff)
    then have "\<bar>real_of_int m\<bar> * 2 powi j \<le> 2 ^ 53 * 2 powi j"
      by (intro mult_right_mono) simp_all
    also have "\<dots> = 2 powi (j + 53)"
      by (simp add: power_int_add)
    finally have "(2::real) powi e \<le> 2 powi (j + 53)"
      using le by simp
    then have "e \<le> j + 53" by (simp add: p2_le_iff)
    with False have e: "e = j + 53" by simp
    from le have "2 powi j * 2 ^ 53 \<le> \<bar>real_of_int m\<bar> * 2 powi j"
      by (simp add: e power_int_add)
    then have "2 ^ 53 \<le> \<bar>real_of_int m\<bar>"
      by simp
    then have "2 ^ 53 \<le> \<bar>m\<bar>"
      by (metis of_int_abs numeral_power_le_of_int_cancel_iff)
    with assms(1) have "m = 2 ^ 53 \<or> m = - (2 ^ 53)" by linarith
    then have "real_of_int m / 2 = of_int (m div 2)" by auto
    moreover have "r / 2 powi (e - 52) = real_of_int m / 2"
      by (simp add: r_def e power_int_add field_simps)
    ultimately show ?thesis by metis
  qed
  then obtain N where "r / 2 powi (expo r - 52) = of_int N"
    by (auto simp: e_def)
  from round64_int_quot [OF this] assms(3) show ?thesis
    by (simp add: r_def)
qed

lemma round64_range:
  assumes "round64 r = Fin s"
  shows "is_double s"
proof -
  define e where "e = expo r"
  define n where "n = rne (r / 2 powi (e - 52))"
  from assms have small: "\<not> huge \<le> \<bar>of_int n * (2::real) powi (e - 52)\<bar>"
    and s: "s = of_int n * 2 powi (e - 52)"
    by (auto simp: round64_def Let_def e_def n_def split: if_splits)
  have "\<bar>n\<bar> \<le> 2 ^ 53"
  proof (cases "e = 1024")
    case True
    have "huge = 2 ^ 52 * 2 ^ 972"
      unfolding huge_def by (simp only: power_add [symmetric]) simp
    with small have "\<bar>real_of_int n\<bar> * 2 ^ 972 < 2 ^ 52 * 2 ^ 972"
      by (simp add: True abs_mult del: power_numeral)
    then have "\<bar>real_of_int n\<bar> < 2 ^ 52"
      by (simp only: mult_less_cancel_right_pos zero_less_power zero_less_numeral)
    then have "\<bar>n\<bar> < 2 ^ 52"
      by (metis of_int_abs of_int_less_numeral_power_cancel_iff)
    then show ?thesis by simp
  next
    case False
    then have "\<bar>r\<bar> < 2 powi (e + 1)"
      unfolding e_def by (rule expo_upper)
    also have "\<dots> = 2 ^ 53 * 2 powi (e - 52)"
      by (simp add: power_int_add power_int_diff)
    finally have "\<bar>r\<bar> / 2 powi (e - 52) < 2 ^ 53"
      by (simp add: field_simps)
    then have "\<bar>r / 2 powi (e - 52)\<bar> < 2 ^ 53"
      by (simp add: abs_divide)
    then have "r / 2 powi (e - 52) \<le> 2 ^ 53" "- (2 ^ 53) \<le> r / 2 powi (e - 52)"
      by linarith+
    then have up: "r / 2 powi (e - 52) \<le> of_int (2 ^ 53)"
      and lo: "of_int (- (2 ^ 53)) \<le> r / 2 powi (e - 52)"
      by simp_all
    have "n \<le> 2 ^ 53"
      unfolding n_def using up by (rule rne_upper)
    moreover have "- (2 ^ 53) \<le> n"
      unfolding n_def using lo by (rule rne_lower)
    ultimately show ?thesis by simp
  qed
  moreover have "- 1074 \<le> e - 52"
    using expo_range [of r] by (simp add: e_def)
  moreover have "\<bar>of_int n * (2::real) powi (e - 52)\<bar> < huge"
    using small by simp
  ultimately show ?thesis
    unfolding is_double_def s by (rule round64_exact)
qed

lemma round64_zero_only:
  assumes "round64 r = Fin 0"
  shows "\<bar>r\<bar> < 2 powi (- 1074)"
proof -
  define e where "e = expo r"
  have u: "(0::real) < 2 powi (e - 52)" by simp
  from assms have "of_int (rne (r / 2 powi (e - 52))) * (2::real) powi (e - 52) = 0"
    by (auto simp: round64_def Let_def e_def split: if_splits)
  then have "rne (r / 2 powi (e - 52)) = 0" by simp
  then have "\<bar>r / 2 powi (e - 52)\<bar> \<le> 1 / 2" by (rule rne_zero)
  then have half: "\<bar>r\<bar> \<le> 2 powi (e - 52) / 2"
    by (simp add: abs_divide field_simps)
  have "e = - 1022"
  proof (rule ccontr)
    assume "e \<noteq> - 1022"
    then have "2 powi e \<le> \<bar>r\<bar>"
      unfolding e_def by (rule expo_lower)
    with half have "(2::real) powi e \<le> 2 powi (e - 52) / 2" by simp
    also have "\<dots> < 2 powi (e - 52)" by simp
    finally have "e < e - 52" by (simp add: p2_less_iff)
    then show False by simp
  qed
  with half have "\<bar>r\<bar> \<le> 2 powi (- 1074) / 2" by simp
  also have "\<dots> < 2 powi (- 1074)" by simp
  finally show ?thesis .
qed

lemma is_double_multiple:
  assumes "is_double d"
  shows "\<exists>N::int. d = of_int N * 2 powi (- 1074)"
proof -
  define e where "e = expo d"
  define n where "n = rne (d / 2 powi (e - 52))"
  from assms have d: "d = of_int n * 2 powi (e - 52)"
    by (auto simp: is_double_def round64_def Let_def e_def n_def split: if_splits)
  have "0 \<le> e + 1022"
    using expo_range [of d] by (simp add: e_def)
  then have "(2::real) powi (e + 1022) = of_int (2 ^ nat (e + 1022))"
    by (simp add: power_int_nonneg_exp)
  moreover have "(2::real) powi ((e + 1022) + (- 1074)) = 2 powi (e + 1022) * 2 powi (- 1074)"
    by (rule power_int_add) simp
  then have "(2::real) powi (e - 52) = 2 powi (e + 1022) * 2 powi (- 1074)"
    by (simp only: add_uminus_conv_diff diff_add_eq [symmetric]) simp
  ultimately have "d = of_int (n * 2 ^ nat (e + 1022)) * 2 powi (- 1074)"
    using d by simp
  then show ?thesis by blast
qed

lemma round64_diff_nonzero:
  assumes "is_double a" and "is_double b" and "a \<noteq> b"
  shows "round64 (a - b) \<noteq> Fin 0"
proof
  assume "round64 (a - b) = Fin 0"
  then have small: "\<bar>a - b\<bar> < 2 powi (- 1074)" by (rule round64_zero_only)
  from assms obtain A B :: int where ab: "a = of_int A * 2 powi (- 1074)"
    "b = of_int B * 2 powi (- 1074)"
    using is_double_multiple by blast
  then have "a - b = of_int (A - B) * 2 powi (- 1074)"
    by (simp add: algebra_simps)
  with small have "\<bar>real_of_int (A - B)\<bar> * 2 powi (- 1074) < 1 * 2 powi (- 1074)"
    by (simp add: abs_mult)
  then have "\<bar>real_of_int (A - B)\<bar> < 1"
    by (simp only: mult_less_cancel_right_pos zero_less_power_int zero_less_numeral)
  then have "A - B = 0" by linarith
  with ab assms(3) show False by simp
qed

lemma round64_eval:
  assumes "- 1022 \<le> k" and "k \<le> 1023"
    and "2 powi k \<le> \<bar>r\<bar>" and "\<bar>r\<bar> < 2 powi (k + 1)"
    and "rne (r / 2 powi (k - 52)) = n"
    and "\<bar>of_int n * (2::real) powi (k - 52)\<bar> < huge"
  shows "round64 r = Fin (of_int n * 2 powi (k - 52))"
proof -
  have "expo r = k"
    using assms(1-4) by (intro expo_eq) simp_all
  then show ?thesis
    using assms(5,6) by (simp add: round64_def Let_def)
qed

lemma round64_not_NaN [simp]: "round64 r \<noteq> NaN"
  by (simp add: round64_def Let_def)

lemma round64_0 [simp]: "round64 0 = Fin 0"
  using round64_exact [of 0 0] by (simp add: huge_def)

lemma round64_1 [simp]: "round64 1 = Fin 1"
  using round64_exact [of 1 0] by (simp add: huge_def)

lemma round64_idem: "round64 r = Fin s \<Longrightarrow> round64 s = Fin s"
  using round64_range [of r s] by (simp add: is_double_def)

lemma fl_fl [simp]: "fl (fl z) = fl z"
proof (cases z)
  case (Fin r)
  show ?thesis
  proof (cases "round64 r")
    case (Fin s)
    with \<open>z = Fin r\<close> round64_idem [of r s] show ?thesis by simp
  qed (simp_all add: \<open>z = Fin r\<close>)
qed simp_all

lemma fmul_one: "fmul (Fin 1) (fl z) = fl z"
proof (cases "fl z")
  case (Fin s)
  then have "fl (Fin s) = Fin s"
    by (metis fl_fl)
  with Fin show ?thesis by (simp add: fmul_def)
qed (simp_all add: fmul_def)

lemma round64_of_int: "\<bar>m\<bar> \<le> 2 ^ 53 \<Longrightarrow> round64 (of_int m) = Fin (of_int m)"
proof -
  assume m: "\<bar>m\<bar> \<le> 2 ^ 53"
  then have "\<bar>real_of_int m\<bar> \<le> 2 ^ 53"
    by (metis of_int_abs of_int_le_numeral_power_cancel_iff)
  then have "\<bar>real_of_int m * 2 powi 0\<bar> < huge"
    by (simp add: huge_def)
  from round64_exact [OF m _ this] show ?thesis by simp
qed

lemma round64_of_nat: "k \<le> 2 ^ 53 \<Longrightarrow> round64 (real k) = Fin (real k)"
  using round64_of_int [of "int k"] by simp

lemma is_double_int: "\<bar>m\<bar> \<le> 2 ^ 53 \<Longrightarrow> is_double (of_int m)"
  by (simp add: is_double_def round64_of_int)

lemma lit_tenth: "lit (1 / 10) = Fin (3602879701896397 / 36028797018963968)"
proof -
  have "round64 (1 / 10) = Fin (of_int 7205759403792794 * 2 powi (- 4 - 52))"
    by (rule round64_eval) (simp_all add: rne_def huge_def)
  then show ?thesis by (simp add: lit_def)
qed

lemma round64_nonneg:
  assumes "round64 r = Fin s" and "0 \<le> r"
  shows "0 \<le> s"
proof -
  define u :: real where "u = 2 powi (expo r - 52)"
  have u: "0 < u" by (simp add: u_def)
  from assms(1) have s: "s = of_int (rne (r / u)) * u"
    by (auto simp: round64_def Let_def u_def split: if_splits)
  have "of_int 0 \<le> r / u" using assms(2) u by simp
  then have "0 \<le> rne (r / u)" by (rule rne_lower)
  then show ?thesis using u by (simp add: s)
qed

lemma round64_pos_not_NInf: "0 < r \<Longrightarrow> round64 r \<noteq> NInf"
  by (simp add: round64_def Let_def)

lemma map64_at_min:
  assumes "is_double fmin" and "is_double fmax" and "is_double tmin"
    and "fmin \<noteq> fmax" and "is_finite (fsub (Fin tmax) (Fin tmin))"
  shows "map64 (Fin fmin) (Fin fmin) (Fin fmax) (Fin tmin) (Fin tmax) = Fin tmin"
proof -
  have n: "fsub (Fin fmin) (Fin fmin) = Fin 0"
    by (simp add: fsub_def nsub_def)
  have "round64 (fmax - fmin) \<noteq> Fin 0"
    using assms by (intro round64_diff_nonzero) auto
  then have q: "fdiv (Fin 0) (fsub (Fin fmax) (Fin fmin)) = Fin 0"
    by (cases "round64 (fmax - fmin)") (simp_all add: fdiv_def fsub_def nsub_def)
  from assms(5) obtain t where t: "fsub (Fin tmax) (Fin tmin) = Fin t"
    by (cases "fsub (Fin tmax) (Fin tmin)") simp_all
  show ?thesis
    using assms(3) by (simp add: map64_def n q t fmul_def fadd_def is_double_def)
qed

lemma map64_at_max:
  assumes "is_double fmin" and "is_double fmax"
    and "fmin \<noteq> fmax" and "is_finite (fsub (Fin fmax) (Fin fmin))"
  shows "map64 (Fin fmax) (Fin fmin) (Fin fmax) (Fin tmin) (Fin tmax) =
           fadd (fsub (Fin tmax) (Fin tmin)) (Fin tmin)"
proof -
  have nz: "round64 (fmax - fmin) \<noteq> Fin 0"
    using assms by (intro round64_diff_nonzero) auto
  from assms(4) obtain d where d: "fsub (Fin fmax) (Fin fmin) = Fin d"
    by (cases "fsub (Fin fmax) (Fin fmin)") simp_all
  with nz have "d \<noteq> 0" by (auto simp: fsub_def nsub_def)
  then have q: "fdiv (Fin d) (Fin d) = Fin 1"
    by (simp add: fdiv_def)
  have "fmul (Fin 1) (fsub (Fin tmax) (Fin tmin)) = fsub (Fin tmax) (Fin tmin)"
    unfolding fsub_def by (rule fmul_one)
  then show ?thesis
    by (simp add: map64_def d q)
qed

section \<open>The mapper\<close>

text \<open>
  In binary64 the mapper does not return \<open>to_max\<close> at \<open>from_max\<close> for all finite
  arguments: \<open>map(1, 0, 1, 2^54, 1)\<close> computes \<open>1 - 2^54\<close>, which rounds to \<open>-2^54\<close>, and
  returns \<open>0\<close>.
\<close>

theorem map_identity_rounds:
  "map64 (Fin 1) (Fin 0) (Fin 1) (Fin (2 ^ 54)) (Fin 1) = Fin 0"
proof -
  have r1: "round64 (1 - 2 ^ 54) = Fin (of_int (- (2 ^ 53)) * 2 powi (53 - 52))"
    by (rule round64_eval) (simp_all add: rne_def huge_def)
  have r2: "round64 (- (2 ^ 54)) = Fin (- (2 ^ 54))"
    using round64_exact [of "- 1" 54] by (simp add: huge_def)
  show ?thesis
    using r1 r2 by (simp add: map64_def fsub_def fdiv_def fmul_def fadd_def nsub_def)
qed

text \<open>
  C6 (amended). For all binary64 numbers \<open>from_min \<noteq> from_max\<close>, \<open>to_min\<close>, \<open>to_max\<close>:
  the mapper returns \<open>to_min\<close> at \<open>from_min\<close> when \<open>to_max - to_min\<close> does not overflow;
  at \<open>from_max\<close>, when \<open>from_max - from_min\<close> does not overflow, it returns the rounded
  sum of the rounded difference \<open>to_max - to_min\<close> and \<open>to_min\<close>, which is \<open>to_max\<close> when
  the difference \<open>to_max - to_min\<close> is a binary64 number.
\<close>

theorem map_identity:
  assumes "is_double fmin" and "is_double fmax" and "is_double tmin" and "is_double tmax"
    and "fmin \<noteq> fmax"
  shows "(is_finite (fsub (Fin tmax) (Fin tmin)) \<longrightarrow>
            map64 (Fin fmin) (Fin fmin) (Fin fmax) (Fin tmin) (Fin tmax) = Fin tmin)
       \<and> (is_finite (fsub (Fin fmax) (Fin fmin)) \<longrightarrow>
            map64 (Fin fmax) (Fin fmin) (Fin fmax) (Fin tmin) (Fin tmax) =
              fadd (fsub (Fin tmax) (Fin tmin)) (Fin tmin))
       \<and> (is_finite (fsub (Fin fmax) (Fin fmin)) \<and> is_double (tmax - tmin) \<longrightarrow>
            map64 (Fin fmax) (Fin fmin) (Fin fmax) (Fin tmin) (Fin tmax) = Fin tmax)"
proof (intro conjI impI)
  assume "is_finite (fsub (Fin tmax) (Fin tmin))"
  with assms show "map64 (Fin fmin) (Fin fmin) (Fin fmax) (Fin tmin) (Fin tmax) = Fin tmin"
    by (intro map64_at_min)
next
  assume "is_finite (fsub (Fin fmax) (Fin fmin))"
  with assms show "map64 (Fin fmax) (Fin fmin) (Fin fmax) (Fin tmin) (Fin tmax) =
              fadd (fsub (Fin tmax) (Fin tmin)) (Fin tmin)"
    by (intro map64_at_max)
next
  assume a: "is_finite (fsub (Fin fmax) (Fin fmin)) \<and> is_double (tmax - tmin)"
  then have "fsub (Fin tmax) (Fin tmin) = Fin (tmax - tmin)"
    by (simp add: fsub_def nsub_def is_double_def)
  then have "fadd (fsub (Fin tmax) (Fin tmin)) (Fin tmin) = Fin tmax"
    using assms(4) by (simp add: fadd_def is_double_def)
  with a assms show "map64 (Fin fmax) (Fin fmin) (Fin fmax) (Fin tmin) (Fin tmax) = Fin tmax"
    by (simp add: map64_at_max)
qed

theorem map_identity_witness:
  "is_double 0 \<and> is_double 4 \<and> is_double 10 \<and> is_double 30 \<and> (0::real) \<noteq> 4
   \<and> is_finite (fsub (Fin 30) (Fin 10))
   \<and> map64 (Fin 0) (Fin 0) (Fin 4) (Fin 10) (Fin 30) = Fin 10
   \<and> is_finite (fsub (Fin 4) (Fin 0))
   \<and> is_double (30 - 10)
   \<and> map64 (Fin 4) (Fin 0) (Fin 4) (Fin 10) (Fin 30) = Fin 30"
proof -
  have d0: "is_double 0" using is_double_int [of 0] by simp
  have d4: "is_double 4" using is_double_int [of 4] by simp
  have d10: "is_double 10" using is_double_int [of 10] by simp
  have d20: "is_double 20" using is_double_int [of 20] by simp
  have d30: "is_double 30" using is_double_int [of 30] by simp
  have ne: "(0::real) \<noteq> 4" by simp
  have f1: "is_finite (fsub (Fin 30) (Fin 10))"
    using d20 by (simp add: fsub_def nsub_def is_double_def)
  have f2: "is_finite (fsub (Fin 4) (Fin 0))"
    using d4 by (simp add: fsub_def nsub_def is_double_def)
  have f3: "fadd (fsub (Fin 30) (Fin 10)) (Fin 10) = Fin 30"
    using d20 d30 by (simp add: fsub_def fadd_def nsub_def is_double_def)
  show ?thesis
    using map_identity [OF d0 d4 d10 d30 ne] d0 d4 d10 d20 d30 f1 f2 f3 by simp
qed

section \<open>The projection round trip\<close>









section \<open>The sampler\<close>

lemma sample_loop_eq:
  "i \<le> n \<Longrightarrow> length out = n \<Longrightarrow>
   sample_loop f st en n i out =
     take i out @ map (\<lambda>k. Some \<lparr>x = map' (num k) (Fin 0) (nsub (num n) (Fin 1)) st en,
                                 y = f (map' (num k) (Fin 0) (nsub (num n) (Fin 1)) st en)\<rparr>)
                    [i..<n]"
proof (induction f st en n i out rule: sample_loop.induct)
  case (1 fn start end' samples i out)
  show ?case
  proof (cases "i < samples")
    case True
    then show ?thesis
      using 1 by (subst sample_loop.simps)
        (simp add: Let_def take_Suc_conv_app_nth upt_conv_Cons)
  next
    case False
    then show ?thesis
      using 1 by (subst sample_loop.simps) simp
  qed
qed

lemma sample_loop64_eq:
  "i \<le> n \<Longrightarrow> length out = n \<Longrightarrow>
   sample_loop64 f st en n i out =
     take i out @ map (\<lambda>k. Some \<lparr>x = map64 (num k) (Fin 0) (fsub (num n) (Fin 1)) st en,
                                 y = f (map64 (num k) (Fin 0) (fsub (num n) (Fin 1)) st en)\<rparr>)
                    [i..<n]"
proof (induction f st en n i out rule: sample_loop64.induct)
  case (1 fn start end' samples i out)
  show ?case
  proof (cases "i < samples")
    case True
    then show ?thesis
      using 1 by (subst sample_loop64.simps)
        (simp add: Let_def take_Suc_conv_app_nth upt_conv_Cons)
  next
    case False
    then show ?thesis
      using 1 by (subst sample_loop64.simps) simp
  qed
qed

lemma samples_minus_one:
  assumes "2 \<le> n" and "n \<le> 4294967295"
  shows "fsub (Fin (real n)) (Fin 1) = Fin (real n - 1)"
proof -
  have "n - 1 \<le> 2 ^ 53" using assms by simp
  from round64_of_nat [OF this] assms show ?thesis
    by (simp add: fsub_def nsub_def of_nat_diff)
qed

lemma sample64_first_x:
  assumes "2 \<le> n" and "n \<le> 4294967295" and "is_double a"
    and "is_finite (fsub (Fin b) (Fin a))"
  shows "map64 (num 0) (Fin 0) (fsub (num n) (Fin 1)) (Fin a) (Fin b) = Fin a"
proof -
  have d0: "is_double 0" by (simp add: is_double_def)
  have dn: "is_double (real (n - 1))"
    unfolding is_double_def using assms by (intro round64_of_nat) simp
  have "real (n - 1) \<noteq> 0" using assms by simp
  then have "map64 (Fin 0) (Fin 0) (Fin (real (n - 1))) (Fin a) (Fin b) = Fin a"
    using d0 dn assms by (intro map64_at_min) auto
  then show ?thesis
    using assms by (simp add: samples_minus_one of_nat_diff)
qed

lemma sample64_last_x:
  assumes "2 \<le> n" and "n \<le> 4294967295"
  shows "map64 (num (n - 1)) (Fin 0) (fsub (num n) (Fin 1)) (Fin a) (Fin b) =
           fadd (fsub (Fin b) (Fin a)) (Fin a)"
proof -
  have d0: "is_double 0" by (simp add: is_double_def)
  have dn: "is_double (real (n - 1))"
    unfolding is_double_def using assms by (intro round64_of_nat) simp
  have ne: "real (n - 1) \<noteq> 0" using assms by simp
  have "fsub (Fin (real (n - 1))) (Fin 0) = Fin (real (n - 1))"
    using dn by (simp add: fsub_def nsub_def is_double_def)
  then have "map64 (Fin (real (n - 1))) (Fin 0) (Fin (real (n - 1))) (Fin a) (Fin b) =
      fadd (fsub (Fin b) (Fin a)) (Fin a)"
    using d0 dn ne by (intro map64_at_max) auto
  then show ?thesis
    using assms by (simp add: samples_minus_one of_nat_diff)
qed

text \<open>
  The sampler does not end at \<open>b\<close> for all bounds: with \<open>a = 2^54\<close>, \<open>b = 1\<close> and two
  samples the last point's \<open>x\<close> is \<open>0\<close>, because \<open>1 - 2^54\<close> rounds to \<open>-2^54\<close>. And a
  sample count of \<open>2^32\<close> is not an array length: the sampler raises a \<^verbatim>\<open>RangeError\<close>.
\<close>

theorem sample_misses_end:
  "sample64 one_fn (Fin (2 ^ 54)) (Fin 1) 2 =
     Inr [Some \<lparr>x = Fin (2 ^ 54), y = Fin 1\<rparr>, Some \<lparr>x = Fin 0, y = Fin 1\<rparr>]
   \<and> sample64 one_fn (Fin 0) (Fin 1) 4294967296 = Inl RangeError"
proof -
  have upt2: "[0..<2] = [0, 1]"
    by (simp add: numeral_2_eq_2 upt_rec)
  have r1: "round64 (1 - 2 ^ 54) = Fin (of_int (- (2 ^ 53)) * 2 powi (53 - 52))"
    by (rule round64_eval) (simp_all add: rne_def huge_def)
  have r2: "round64 (- (2 ^ 54)) = Fin (- (2 ^ 54))"
    using round64_exact [of "- 1" 54] by (simp add: huge_def)
  have r3: "round64 (2 ^ 54) = Fin (2 ^ 54)"
    using round64_exact [of 1 54] by (simp add: huge_def)
  have "sample64 one_fn (Fin (2 ^ 54)) (Fin 1) 2 =
     Inr [Some \<lparr>x = Fin (2 ^ 54), y = Fin 1\<rparr>, Some \<lparr>x = Fin 0, y = Fin 1\<rparr>]"
    using r1 r2 r3
    by (simp add: sample64_def sample_loop64_eq upt2 one_fn_def map64_def fsub_def fdiv_def
        fmul_def fadd_def nsub_def)
  then show ?thesis by (simp add: sample64_def)
qed

text \<open>
  C5 (amended). For every function \<open>fn\<close>, bounds and sample count \<open>n\<close> with
  \<open>2 \<le> n \<le> 2^32 - 1\<close>, the sampler returns a sequence of exactly \<open>n\<close> points whose
  \<open>i\<close>-th point is \<open>(x_i, fn(x_i))\<close> with \<open>x_i = map(i, 0, n-1, start, end)\<close>. For
  binary64 bounds \<open>a\<close> and \<open>b\<close> whose difference \<open>b - a\<close> does not overflow, the first
  point's \<open>x\<close> is \<open>a\<close> and the last point's \<open>x\<close> is the rounded sum of the rounded
  difference \<open>b - a\<close> and \<open>a\<close>, which is \<open>b\<close> when \<open>b - a\<close> is a binary64 number. For every
  sample count above \<open>2^32 - 1\<close> the sampler raises a \<^verbatim>\<open>RangeError\<close>. The result is a
  function of the arguments, so two calls with the same arguments yield the same
  sequence.
\<close>

theorem sample_points:
  assumes "2 \<le> n" and "n \<le> 4294967295"
  shows "sample64 f st en n =
           Inr (map (\<lambda>i. Some \<lparr>x = map64 (num i) (Fin 0) (fsub (num n) (Fin 1)) st en,
                                y = f (map64 (num i) (Fin 0) (fsub (num n) (Fin 1)) st en)\<rparr>)
                  [0..<n])
       \<and> (is_double a \<and> is_finite (fsub (Fin b) (Fin a)) \<longrightarrow>
            (\<exists>ps. sample64 f (Fin a) (Fin b) n = Inr ps \<and> length ps = n
              \<and> ps ! 0 = Some \<lparr>x = Fin a, y = f (Fin a)\<rparr>
              \<and> ps ! (n - 1) = Some \<lparr>x = fadd (fsub (Fin b) (Fin a)) (Fin a),
                                      y = f (fadd (fsub (Fin b) (Fin a)) (Fin a))\<rparr>))
       \<and> (is_double b \<and> is_double (b - a) \<longrightarrow>
            fadd (fsub (Fin b) (Fin a)) (Fin a) = Fin b)
       \<and> (4294967295 < m \<longrightarrow> sample64 f st en m = Inl RangeError)"
proof -
  have eq: "sample64 f s e n =
           Inr (map (\<lambda>i. Some \<lparr>x = map64 (num i) (Fin 0) (fsub (num n) (Fin 1)) s e,
                                y = f (map64 (num i) (Fin 0) (fsub (num n) (Fin 1)) s e)\<rparr>)
                  [0..<n])" for s e
    using assms by (simp add: sample64_def sample_loop64_eq)
  have ends: "is_double a \<and> is_finite (fsub (Fin b) (Fin a)) \<longrightarrow>
            (\<exists>ps. sample64 f (Fin a) (Fin b) n = Inr ps \<and> length ps = n
              \<and> ps ! 0 = Some \<lparr>x = Fin a, y = f (Fin a)\<rparr>
              \<and> ps ! (n - 1) = Some \<lparr>x = fadd (fsub (Fin b) (Fin a)) (Fin a),
                                      y = f (fadd (fsub (Fin b) (Fin a)) (Fin a))\<rparr>)"
  proof
    assume a: "is_double a \<and> is_finite (fsub (Fin b) (Fin a))"
    have first: "map64 (num 0) (Fin 0) (fsub (num n) (Fin 1)) (Fin a) (Fin b) = Fin a"
      using assms a by (intro sample64_first_x) simp_all
    have last: "map64 (num (n - 1)) (Fin 0) (fsub (num n) (Fin 1)) (Fin a) (Fin b) =
           fadd (fsub (Fin b) (Fin a)) (Fin a)"
      using assms by (rule sample64_last_x)
    show "\<exists>ps. sample64 f (Fin a) (Fin b) n = Inr ps \<and> length ps = n
              \<and> ps ! 0 = Some \<lparr>x = Fin a, y = f (Fin a)\<rparr>
              \<and> ps ! (n - 1) = Some \<lparr>x = fadd (fsub (Fin b) (Fin a)) (Fin a),
                                      y = f (fadd (fsub (Fin b) (Fin a)) (Fin a))\<rparr>"
      using assms first last by (simp add: eq del: num_Fin)
  qed
  have exact: "is_double b \<and> is_double (b - a) \<longrightarrow> fadd (fsub (Fin b) (Fin a)) (Fin a) = Fin b"
    by (simp add: fsub_def fadd_def nsub_def is_double_def)
  have "4294967295 < m \<longrightarrow> sample64 f st en m = Inl RangeError"
    by (simp add: sample64_def)
  with eq ends exact show ?thesis by blast
qed

theorem sample_points_witness:
  "(2::nat) \<le> 3 \<and> (3::nat) \<le> 4294967295
   \<and> sample64 one_fn (Fin 0) (Fin 4) 3 =
       Inr [Some \<lparr>x = Fin 0, y = Fin 1\<rparr>, Some \<lparr>x = Fin 2, y = Fin 1\<rparr>,
            Some \<lparr>x = Fin 4, y = Fin 1\<rparr>]
   \<and> is_double 0 \<and> is_finite (fsub (Fin 4) (Fin 0))
   \<and> is_double 4 \<and> is_double (4 - 0)
   \<and> fadd (fsub (Fin 4) (Fin 0)) (Fin 0) = Fin 4
   \<and> (4294967295::nat) < 4294967296
   \<and> sample64 one_fn (Fin 0) (Fin 4) 4294967296 = Inl RangeError"
proof -
  have upt3: "[0..<3] = [0, 1, 2]"
    by (simp add: numeral_3_eq_3 upt_rec)
  have d0: "is_double 0" using is_double_int [of 0] by simp
  have d4: "is_double 4" using is_double_int [of 4] by simp
  have r2: "round64 2 = Fin 2" using round64_of_int [of 2] by simp
  have r4: "round64 4 = Fin 4" using round64_of_int [of 4] by simp
  have r8: "round64 8 = Fin 8" using round64_of_int [of 8] by simp
  have rh: "round64 (1 / 2) = Fin (1 / 2)"
    using round64_exact [of 1 "- 1"] by (simp add: huge_def)
  have f: "fsub (Fin 4) (Fin 0) = Fin 4" "fadd (Fin 4) (Fin 0) = Fin 4"
    using r4 by (simp_all add: fsub_def fadd_def nsub_def)
  have all: "sample64 one_fn (Fin 0) (Fin 4) 3 =
      Inr (map (\<lambda>i. Some \<lparr>x = map64 (num i) (Fin 0) (fsub (num 3) (Fin 1)) (Fin 0) (Fin 4),
                           y = one_fn (map64 (num i) (Fin 0) (fsub (num 3) (Fin 1))
                                         (Fin 0) (Fin 4))\<rparr>)
             [0..<3])"
    and big: "sample64 one_fn (Fin 0) (Fin 4) 4294967296 = Inl RangeError"
    using sample_points [where n = 3 and f = one_fn and st = "Fin 0" and en = "Fin 4"
        and a = 0 and b = 4 and m = 4294967296] by simp_all
  have "sample64 one_fn (Fin 0) (Fin 4) 3 =
       Inr [Some \<lparr>x = Fin 0, y = Fin 1\<rparr>, Some \<lparr>x = Fin 2, y = Fin 1\<rparr>,
            Some \<lparr>x = Fin 4, y = Fin 1\<rparr>]"
    using all r2 r4 r8 rh
    by (simp add: upt3 one_fn_def map64_def fsub_def fdiv_def fmul_def fadd_def nsub_def)
  then show ?thesis
    using big d0 d4 f by simp
qed

section \<open>The integrator\<close>

lemma integrate_loop_foldl:
  "integrate_loop f st en n wd i area =
     foldl (\<lambda>ar k. nadd ar (nmul wd (f (map' (num k) (Fin 0) (nsub (num n) (Fin 1)) st en))))
       area [i..<n]"
proof (induction f st en n wd i area rule: integrate_loop.induct)
  case (1 f start end' samples width0 i area)
  show ?case
  proof (cases "i < samples")
    case True
    then show ?thesis
      using 1 by (subst integrate_loop.simps) (simp add: Let_def upt_conv_Cons)
  next
    case False
    then show ?thesis
      by (subst integrate_loop.simps) simp
  qed
qed

text \<open>
  When the lower bound is zero the width that the code uses is the step, and the code
  computes the sum of the specification.
\<close>

lemma integrate_from_zero:
  assumes "2 \<le> n"
  shows "integrate f (Fin 0) (Fin b) n = spec_integrate f (Fin 0) (Fin b) n"
proof -
  have "spec_step (Fin 0) (Fin b) n = map' (Fin 1) (Fin 0) (nsub (num n) (Fin 1)) (Fin 0) (Fin b)"
    using assms by (simp add: spec_step_def map'_def nsub_def)
  then show ?thesis
    by (simp add: integrate_def spec_integrate_def integrate_loop_foldl del: num_Fin)
qed

text \<open>
  C1. The specification has the integrator return, for \<open>n \<ge> 2\<close>, the sum of
  \<open>step * fn(x_i)\<close> over the \<open>n\<close> sample points, with
  \<open>step = map(1, 0, n-1, start, end) - map(0, 0, n-1, start, end)\<close>. The code multiplies
  by \<open>width = map(1, 0, n-1, start, end)\<close>, which is \<open>start + step\<close>: for the constant
  function \<open>1\<close> on \<open>[1, 2]\<close> with two samples it returns \<open>4\<close>, and the sum of the
  specification is \<open>2\<close>.
\<close>

theorem integrate_width_not_step:
  "integrate one_fn (Fin 1) (Fin 2) 2 = Fin 4
   \<and> spec_integrate one_fn (Fin 1) (Fin 2) 2 = Fin 2"
  by (simp add: integrate_def integrate_loop_foldl spec_integrate_def spec_step_def one_fn_def
      map'_def nsub_def numeral_2_eq_2)

text \<open>
  With a sample count of zero the loop of the integrator does not run: for the constant
  function \<open>1\<close> on \<open>[0, 1]\<close> the result is the finite number \<open>0\<close>.
\<close>

theorem integrate_zero_samples_finite:
  "integrate one_fn (Fin 0) (Fin 1) 0 = Fin 0
   \<and> is_finite (integrate one_fn (Fin 0) (Fin 1) 0)"
  by (simp add: integrate_def integrate_loop_foldl)

text \<open>
  C7 (amended). A sample count of zero raises no error and yields no value that is not
  finite: the sampler returns the empty sequence and the integrator returns \<open>0\<close>, for
  every function and all bounds. The value that is not finite comes with a sample count
  of one, where the range \<open>[0, n - 1]\<close> of the mapper is empty: the integrator's result is
  not finite for every function and all bounds, and the sampler returns the one point
  \<open>(NaN, fn(NaN))\<close>.
\<close>

theorem zero_and_one_samples:
  "integrate f st en 0 = Fin 0
   \<and> sample f st en 0 = Inr []
   \<and> \<not> is_finite (integrate f st en 1)
   \<and> sample f st en 1 = Inr [Some \<lparr>x = NaN, y = f NaN\<rparr>]"
proof -
  have "\<not> is_finite (map' (Fin 1) (Fin 0) (nsub (num 1) (Fin 1)) st en)"
    by (simp add: map'_def nsub_def not_finite_nadd not_finite_nmul)
  then have "\<not> is_finite (integrate f st en 1)"
    by (simp add: integrate_def integrate_loop_foldl not_finite_nadd2 not_finite_nmul
        del: num_Fin)
  moreover have "integrate f st en 0 = Fin 0"
    by (simp add: integrate_def integrate_loop_foldl)
  moreover have "sample f st en 0 = Inr []"
    by (simp add: sample_def sample_loop_eq)
  moreover have "sample f st en 1 = Inr [Some \<lparr>x = NaN, y = f NaN\<rparr>]"
    by (simp add: sample_def sample_loop_eq map'_def nsub_def)
  ultimately show ?thesis by simp
qed

section \<open>The wheel\<close>


text \<open>
  Every rounding of a number in the normal range has a relative error of at most
  \<open>2^-53\<close>. So for a delta of \<open>-1251\<close> or below the three rounded operations give a
  term that exceeds the size in magnitude, and the sum is negative.
\<close>

lemma round64_rel:
  assumes "round64 r = Fin s" and "2 powi (- 1022) \<le> \<bar>r\<bar>"
  shows "\<bar>s - r\<bar> \<le> \<bar>r\<bar> * 2 powi (- 53)"
proof -
  define e where "e = expo r"
  define u :: real where "u = 2 powi (e - 52)"
  have u: "0 < u" by (simp add: u_def)
  from assms(1) have s: "s = of_int (rne (r / u)) * u"
    by (auto simp: round64_def Let_def u_def e_def split: if_splits)
  have "s - r = (of_int (rne (r / u)) - r / u) * u"
    using u by (simp add: s field_simps)
  then have "\<bar>s - r\<bar> = \<bar>of_int (rne (r / u)) - r / u\<bar> * u"
    using u by (simp add: abs_mult)
  also have "\<dots> \<le> 1 / 2 * u"
    using rne_err [of "r / u"] u by (intro mult_right_mono) simp_all
  finally have err: "\<bar>s - r\<bar> \<le> 1 / 2 * u" .
  have lower: "2 powi e \<le> \<bar>r\<bar>"
  proof (cases "e = - 1022")
    case True
    with assms(2) show ?thesis by simp
  next
    case False
    then show ?thesis unfolding e_def by (rule expo_lower)
  qed
  have "(2::real) powi (e + (- 53)) = 2 powi e * 2 powi (- 53)"
    by (rule power_int_add) simp
  moreover have "(2::real) powi ((e - 52) + 1) = 2 powi (e - 52) * 2 powi 1"
    by (rule power_int_add) simp
  moreover have "(2::real) powi (e + (- 53) + 1) = 2 powi (e + (- 53)) * 2 powi 1"
    by (rule power_int_add) simp
  ultimately have "1 / 2 * u = 2 powi e * 2 powi (- 53)"
    by (simp add: u_def)
  also have "\<dots> \<le> \<bar>r\<bar> * 2 powi (- 53)"
    using lower by (intro mult_right_mono) simp_all
  finally show ?thesis using err by linarith
qed

lemma round64_neg_not_PInf: "r \<le> 0 \<Longrightarrow> round64 r \<noteq> PInf"
  by (simp add: round64_def Let_def)

lemma fl_pos:
  assumes "2 powi (- 1022) \<le> r"
  shows "round64 r = PInf \<or> (\<exists>s. round64 r = Fin s \<and> r * (1 - 2 powi (- 53)) \<le> s)"
proof (cases "round64 r")
  case (Fin s)
  have "(0::real) < 2 powi (- 1022)" by simp
  with assms have pos: "0 < r" by linarith
  with assms have "2 powi (- 1022) \<le> \<bar>r\<bar>" by simp
  from round64_rel [OF Fin this] pos have "\<bar>s - r\<bar> \<le> r * 2 powi (- 53)" by simp
  moreover have "r * (1 - 2 powi (- 53)) = r - r * 2 powi (- 53)"
    by (simp only: right_diff_distrib mult_1_right)
  ultimately have "r * (1 - 2 powi (- 53)) \<le> s" by linarith
  with Fin show ?thesis by simp
next
  case NInf
  have "(0::real) < 2 powi (- 1022)" by simp
  with assms have "0 < r" by linarith
  with NInf round64_pos_not_NInf [of r] show ?thesis by simp
qed simp_all

lemma fl_neg:
  assumes "r \<le> - (2 powi (- 1022))"
  shows "round64 r = NInf \<or> (\<exists>s. round64 r = Fin s \<and> s \<le> r * (1 - 2 powi (- 53)))"
proof (cases "round64 r")
  case (Fin s)
  have "(0::real) < 2 powi (- 1022)" by simp
  with assms have neg: "r < 0" by linarith
  with assms have "2 powi (- 1022) \<le> \<bar>r\<bar>" by simp
  from round64_rel [OF Fin this] neg have "\<bar>s - r\<bar> \<le> - (r * 2 powi (- 53))" by simp
  moreover have "r * (1 - 2 powi (- 53)) = r - r * 2 powi (- 53)"
    by (simp only: right_diff_distrib mult_1_right)
  ultimately have "s \<le> r * (1 - 2 powi (- 53))" by linarith
  with Fin show ?thesis by simp
next
  case PInf
  have "(0::real) < 2 powi (- 1022)" by simp
  with assms have "r \<le> 0" by linarith
  with PInf round64_neg_not_PInf [of r] show ?thesis by simp
qed simp_all

lemma zoom_out_negative:
  assumes "2 powi (- 1000) \<le> a" and "d \<le> - 1251"
  shows "nlt (fadd (Fin a) (fdiv (fmul (fmul (Fin a) (lit (1 / 10))) (Fin d)) (Fin 125)))
           (Fin 0)"
proof -
  define L :: real where "L = 2 powi (- 1022)"
  define k :: real where "k = 1 - 2 powi (- 53)"
  define c :: real where "c = 3602879701896397 / 36028797018963968"
  define q :: real where "q = 999999 / 1000000"
  have L: "0 < L" by (simp add: L_def)
  have "(2::real) powi (22 + (- 1022)) = 2 powi 22 * 2 powi (- 1022)"
    by (rule power_int_add) simp
  then have "(2::real) powi (- 1000) = 4194304 * L"
    unfolding L_def by simp
  with assms(1) have aL: "4194304 * L \<le> a" by simp
  have k: "q \<le> k" "k \<le> 1" "0 < k"
    by (simp_all add: k_def q_def power_int_minus)
  have q: "0 \<le> q" by (simp add: q_def)
  have c: "1 / 10 \<le> c" by (simp add: c_def)
  have a0: "0 < a" using aL L by linarith
  note P = fl_pos [folded L_def k_def] and N = fl_neg [folded L_def k_def]
  have k2: "q * q \<le> k * k" using k q by (intro mult_mono) simp_all
  have k3: "q * q * q \<le> k * k * k" using k k2 q by (intro mult_mono) simp_all
  have A1: "a * q \<le> a * k" using k a0 by (intro mult_left_mono) simp_all
  have A2: "a * (q * q) \<le> a * (k * k)" using k2 a0 by (intro mult_left_mono) simp_all
  have A3: "a * (q * q * q) \<le> a * (k * k * k)" using k3 a0 by (intro mult_left_mono) simp_all
  have Q: "a * q = a * 999999 / 1000000" "a * (q * q) = a * 999998000001 / 1000000000000"
    "a * (q * q * q) = a * 999997000002999999 / 1000000000000000000"
    by (simp_all add: q_def)
  have e1: "fmul (Fin a) (lit (1 / 10)) = round64 (a * c)"
    by (simp add: fmul_def lit_tenth c_def)
  have ac: "a * (1 / 10) \<le> a * c" using c a0 by (intro mult_left_mono) simp_all
  then have r1: "L \<le> a * c" using aL L by linarith
  from P [OF r1] consider (inf1) "round64 (a * c) = PInf"
    | (fin1) s1 where "round64 (a * c) = Fin s1" "a * c * k \<le> s1"
    by blast
  then show ?thesis
  proof cases
    case inf1
    show ?thesis
      unfolding e1 inf1 using assms(2) by (simp add: fmul_def fdiv_def fadd_def)
  next
    case fin1
    have "a * (1 / 10) * k \<le> a * c * k" using ac k by (intro mult_right_mono) simp_all
    with fin1(2) have s1: "a * k / 10 \<le> s1" by simp
    then have s1pos: "0 \<le> s1" using A1 Q a0 by linarith
    have e2: "fmul (fmul (Fin a) (lit (1 / 10))) (Fin d) = round64 (s1 * d)"
      unfolding e1 fin1(1) by (simp add: fmul_def)
    have r2: "s1 * d \<le> s1 * (- 1251)" using assms(2) s1pos by (intro mult_left_mono) simp_all
    then have r2L: "s1 * d \<le> - L" using s1 A1 Q aL L by linarith
    from N [OF r2L] consider (inf2) "round64 (s1 * d) = NInf"
      | (fin2) s2 where "round64 (s1 * d) = Fin s2" "s2 \<le> s1 * d * k"
      by blast
    then show ?thesis
    proof cases
      case inf2
      show ?thesis unfolding e2 inf2 by (simp add: fdiv_def fadd_def)
    next
      case fin2
      have "s1 * d * k \<le> s1 * (- 1251) * k" using r2 k by (intro mult_right_mono) simp_all
      moreover have "a * k / 10 * k \<le> s1 * k" using s1 k by (intro mult_right_mono) simp_all
      ultimately have s2: "s2 \<le> - (1251 / 10) * (a * (k * k))"
        using fin2(2) by (simp add: algebra_simps)
      have e3: "fdiv (fmul (fmul (Fin a) (lit (1 / 10))) (Fin d)) (Fin 125) = round64 (s2 / 125)"
        unfolding e2 fin2(1) by (simp add: fdiv_def)
      have r3L: "s2 / 125 \<le> - L" using s2 A2 Q aL L by linarith
      from N [OF r3L] consider (inf3) "round64 (s2 / 125) = NInf"
        | (fin3) s3 where "round64 (s2 / 125) = Fin s3" "s3 \<le> s2 / 125 * k"
        by blast
      then show ?thesis
      proof cases
        case inf3
        show ?thesis unfolding e3 inf3 by (simp add: fadd_def)
      next
        case fin3
        have "s2 * k \<le> - (1251 / 10) * (a * (k * k)) * k"
          using s2 k by (intro mult_right_mono) simp_all
        then have s3: "s3 \<le> - (1251 / 1250) * (a * (k * k * k))"
          using fin3(2) by (simp add: algebra_simps)
        have e4: "fadd (Fin a) (fdiv (fmul (fmul (Fin a) (lit (1 / 10))) (Fin d)) (Fin 125))
            = round64 (a + s3)"
          unfolding e3 fin3(1) by (simp add: fadd_def)
        have r4: "a + s3 \<le> - (7 / 10000) * a" using s3 A3 Q a0 by linarith
        then have r4L: "a + s3 \<le> - L" using aL L by linarith
        from N [OF r4L] consider (inf4) "round64 (a + s3) = NInf"
          | (fin4) s4 where "round64 (a + s3) = Fin s4" "s4 \<le> (a + s3) * k"
          by blast
        then show ?thesis
        proof cases
          case inf4
          show ?thesis unfolding e4 inf4 by simp
        next
          case fin4
          have "a + s3 < 0" using r4 a0 by linarith
          then have "(a + s3) * k < 0" using k by (intro mult_neg_pos) simp_all
          with fin4(2) have "s4 < 0" by linarith
          then show ?thesis unfolding e4 fin4(1) by simp
        qed
      qed
    qed
  qed
qed

lemma wheel64_4_8:
  "size' (g_view (wheel64 (Fin (- 1250)) state0)) = \<lparr>w = Fin 0, h = Fin 0\<rparr>"
proof -
  have a1: "round64 (4 * (3602879701896397 / 36028797018963968)) =
      Fin (of_int 7205759403792794 * 2 powi (- 2 - 52))"
    by (rule round64_eval) (simp_all add: rne_def huge_def)
  have a2: "round64 (3602879701896397 / 9007199254740992 * (- 1250)) =
      Fin (of_int (- 8796093022208000) * 2 powi (8 - 52))"
    by (rule round64_eval) (simp_all add: rne_def huge_def)
  have a3: "round64 (- 4) = Fin (- 4)"
    using round64_of_int [of "- 4"] by simp
  have b1: "round64 (8 * (3602879701896397 / 36028797018963968)) =
      Fin (of_int 7205759403792794 * 2 powi (- 1 - 52))"
    by (rule round64_eval) (simp_all add: rne_def huge_def)
  have b2: "round64 (3602879701896397 / 4503599627370496 * (- 1250)) =
      Fin (of_int (- 8796093022208000) * 2 powi (9 - 52))"
    by (rule round64_eval) (simp_all add: rne_def huge_def)
  have b3: "round64 (- 8) = Fin (- 8)"
    using round64_of_int [of "- 8"] by simp
  show ?thesis
    using a1 a2 a3 b1 b2 b3
    by (simp add: wheel64_def state0_def view0_def lit_tenth fmul_def fdiv_def fadd_def)
qed

lemma wheel64_4_8_twice:
  "size' (g_view (wheel64 (Fin (- 2500)) state0)) = \<lparr>w = Fin (- 4), h = Fin (- 8)\<rparr>"
proof -
  have a1: "round64 (4 * (3602879701896397 / 36028797018963968)) =
      Fin (of_int 7205759403792794 * 2 powi (- 2 - 52))"
    by (rule round64_eval) (simp_all add: rne_def huge_def)
  have a2: "round64 (3602879701896397 / 9007199254740992 * (- 2500)) =
      Fin (of_int (- 8796093022208000) * 2 powi (9 - 52))"
    by (rule round64_eval) (simp_all add: rne_def huge_def)
  have a3: "round64 (- 8) = Fin (- 8)"
    using round64_of_int [of "- 8"] by simp
  have a4: "round64 (- 4) = Fin (- 4)"
    using round64_of_int [of "- 4"] by simp
  have b1: "round64 (8 * (3602879701896397 / 36028797018963968)) =
      Fin (of_int 7205759403792794 * 2 powi (- 1 - 52))"
    by (rule round64_eval) (simp_all add: rne_def huge_def)
  have b2: "round64 (3602879701896397 / 4503599627370496 * (- 2500)) =
      Fin (of_int (- 8796093022208000) * 2 powi (10 - 52))"
    by (rule round64_eval) (simp_all add: rne_def huge_def)
  have b3: "round64 (- 16) = Fin (- 16)"
    using round64_of_int [of "- 16"] by simp
  show ?thesis
    using a1 a2 a3 a4 b1 b2 b3
    by (simp add: wheel64_def state0_def view0_def lit_tenth fmul_def fdiv_def fadd_def)
qed

lemma wheel64_size3:
  "w (size' (g_view (wheel64 (Fin (- 1250)) state_size3))) = Fin (- (1 / 2251799813685248))"
proof -
  have c1: "round64 (3 * (3602879701896397 / 36028797018963968)) =
      Fin (of_int 5404319552844596 * 2 powi (- 2 - 52))"
    by (rule round64_eval) (simp_all add: rne_def huge_def)
  have c2: "round64 ((1351079888211149 / 4503599627370496) * (- 1250)) =
      Fin (of_int (- 6597069766656001) * 2 powi (8 - 52))"
    by (rule round64_eval) (simp_all add: rne_def huge_def)
  have c3: "round64 ((- (6597069766656001 / 17592186044416)) / 125) =
      Fin (of_int (- 6755399441055745) * 2 powi (1 - 52))"
    by (rule round64_eval) (simp_all add: rne_def huge_def)
  have c4: "round64 (3 + (- (6755399441055745 / 2251799813685248))) =
      Fin (of_int (- 4503599627370496) * 2 powi (- 51 - 52))"
    by (rule round64_eval) (simp_all add: rne_def huge_def)
  show ?thesis
    using c1 c2 c3 c4
    by (simp add: wheel64_def state_size3_def plot_view_def lit_tenth fmul_def fdiv_def
        fadd_def)
qed

lemma wheel64_size07:
  "w (size' (g_view (wheel64 (Fin (- 1250)) state_size07))) = Fin (1 / 9007199254740992)"
proof -
  have a1: "round64 ((3152519739159347 / 4503599627370496) * (3602879701896397 / 36028797018963968)) =
      Fin (of_int 5044031582654955 * 2 powi (- 4 - 52))"
    by (rule round64_eval) (simp_all add: rne_def huge_def)
  have a2: "round64 ((5044031582654955 / 72057594037927936) * (- 1250)) =
      Fin (of_int (- 6157265115545599) * 2 powi (6 - 52))"
    by (rule round64_eval) (simp_all add: rne_def huge_def)
  have a3: "round64 ((- (6157265115545599 / 70368744177664)) / 125) =
      Fin (of_int (- 6305039478318693) * 2 powi (- 1 - 52))"
    by (rule round64_eval) (simp_all add: rne_def huge_def)
  have a4: "round64 ((3152519739159347 / 4503599627370496) + (- (6305039478318693 / 9007199254740992))) =
      Fin (of_int 4503599627370496 * 2 powi (- 53 - 52))"
    by (rule round64_eval) (simp_all add: rne_def huge_def)
  show ?thesis
    using a1 a2 a3 a4
    by (simp add: wheel64_def state_size07_def plot_view_def lit_tenth fmul_def fdiv_def
        fadd_def)
qed

lemma wheel64_size07_below:
  "w (size' (g_view (wheel64 (Fin (- (5497558138880001 / 4398046511104))) state_size07)))
     = Fin 0"
proof -
  have b1: "round64 ((3152519739159347 / 4503599627370496) * (3602879701896397 / 36028797018963968)) =
      Fin (of_int 5044031582654955 * 2 powi (- 4 - 52))"
    by (rule round64_eval) (simp_all add: rne_def huge_def)
  have b2: "round64 ((5044031582654955 / 72057594037927936) * (- (5497558138880001 / 4398046511104))) =
      Fin (of_int (- 6157265115545600) * 2 powi (6 - 52))"
    by (rule round64_eval) (simp_all add: rne_def huge_def)
  have b3: "round64 ((- (175 / 2)) / 125) =
      Fin (of_int (- 6305039478318694) * 2 powi (- 1 - 52))"
    by (rule round64_eval) (simp_all add: rne_def huge_def)
  show ?thesis
    using b1 b2 b3
    by (simp add: wheel64_def state_size07_def plot_view_def lit_tenth fmul_def fdiv_def
        fadd_def)
qed

text \<open>
  In binary64 a delta of \<open>-1250\<close> does not set every positive size to \<open>0\<close>: from width
  \<open>3\<close> the new width is \<open>-2^-51\<close>, and from width \<open>0.7\<close> it is \<open>2^-53\<close>, still positive.
  And a delta below \<open>-1250\<close> does not make every positive size negative: from width
  \<open>0.7\<close> the delta \<open>-1250.0000000000002\<close> gives the width \<open>0\<close>.
\<close>

theorem wheel_not_exactly_zero:
  "w (size' (g_view (wheel64 (Fin (- 1250)) state_size3))) = Fin (- (1 / 2251799813685248))
   \<and> w (size' (g_view (wheel64 (Fin (- 1250)) state_size07))) = Fin (1 / 9007199254740992)
   \<and> w (size' (g_view (wheel64 (Fin (- (5497558138880001 / 4398046511104))) state_size07)))
      = Fin 0"
  using wheel64_size3 wheel64_size07 wheel64_size07_below by simp

text \<open>
  C9 (amended). The wheel does not keep the size positive, and nothing bounds the
  result: for every size whose width and height are at least \<open>2^-1000\<close> and every delta
  of \<open>-1251\<close> or below, the new width and the new height are negative (or \<open>-\<infinity>\<close>); and
  from the starting size \<open>(4, 8)\<close> a delta of \<open>-1250\<close> sets the width and the height
  to exactly \<open>0\<close>.
\<close>

theorem wheel_no_clamp:
  assumes "size' (g_view s) = \<lparr>w = Fin a, h = Fin b\<rparr>"
    and "2 powi (- 1000) \<le> a" and "2 powi (- 1000) \<le> b" and "d \<le> - 1251"
  shows "nlt (w (size' (g_view (wheel64 (Fin d) s)))) (Fin 0)
       \<and> nlt (h (size' (g_view (wheel64 (Fin d) s)))) (Fin 0)
       \<and> size' (g_view (wheel64 (Fin (- 1250)) state0)) = \<lparr>w = Fin 0, h = Fin 0\<rparr>"
  using zoom_out_negative [OF assms(2,4)] zoom_out_negative [OF assms(3,4)] assms(1)
    wheel64_4_8
  by (simp add: wheel64_def Let_def)

theorem wheel_no_clamp_witness:
  "size' (g_view state0) = \<lparr>w = Fin 4, h = Fin 8\<rparr>
   \<and> 2 powi (- 1000) \<le> (4::real) \<and> 2 powi (- 1000) \<le> (8::real) \<and> (- 2500::real) \<le> - 1251
   \<and> size' (g_view (wheel64 (Fin (- 2500)) state0)) = \<lparr>w = Fin (- 4), h = Fin (- 8)\<rparr>
   \<and> nlt (w (size' (g_view (wheel64 (Fin (- 2500)) state0)))) (Fin 0)
   \<and> nlt (h (size' (g_view (wheel64 (Fin (- 2500)) state0)))) (Fin 0)"
proof -
  have s: "size' (g_view state0) = \<lparr>w = Fin 4, h = Fin 8\<rparr>"
    by (simp add: state0_def view0_def plot_view_def)
  have "(2::real) powi (- 1000) \<le> 2 powi 0" by (simp only: p2_le_iff)
  then have p: "2 powi (- 1000) \<le> (4::real)" "2 powi (- 1000) \<le> (8::real)" by simp_all
  have d: "(- 2500::real) \<le> - 1251" by simp
  from wheel_no_clamp [OF s p d] s p d wheel64_4_8_twice show ?thesis by simp
qed

section \<open>The drag\<close>

text \<open>
  After a pointer-down at screen \<open>(400, 300)\<close> on the starting state (an 800 by 600
  canvas), a move of the same pointer to \<open>(400, 350)\<close> changes the plot-space point by
  \<open>-2/3\<close> in \<open>y\<close>. The centre's \<open>y\<close> becomes \<open>2/3\<close>: the snapshot centre minus that delta.
  The snapshot centre plus the delta is \<open>-2/3\<close>.
\<close>

theorem drag_y_minus_delta:
  "y (center (g_view (pointermove (pointer_at 1 400 350)
        (pointerdown (pointer_at 1 400 300) state0)))) = Fin (2 / 3)
   \<and> nadd (y (center view0))
        (nsub (y (unproject canvas800 view0 \<lparr>x = Fin 400, y = Fin 350\<rparr>))
              (y (unproject canvas800 view0 \<lparr>x = Fin 400, y = Fin 300\<rparr>))) = Fin (- 2 / 3)"
  by (simp add: pointerdown_def pointermove_def unproject_def top_left_def bottom_right_def
      map'_def nsub_def state0_def view0_def canvas800_def pointer_at_def)

text \<open>
  C3 (amended). While a drag is active, a pointer-move with the pointer id of the
  session unprojects the new screen point through the snapshot view of the session and
  sets the centre of the live view to the snapshot centre minus the plot-space delta
  (new point minus anchor), in \<open>x\<close> and in \<open>y\<close> (in \<open>y\<close> the code adds anchor minus new
  point); nothing else changes. For the view centred at \<open>(2, 0)\<close> with size \<open>(4, 8)\<close> on
  an 800 by 600 canvas, pointer-down at \<open>(400, 300)\<close> and pointer-move to \<open>(450, 300)\<close>
  shift the centre's \<open>x\<close> by \<open>-0.25\<close>.
\<close>

theorem pointermove_center:
  assumes "g_dragging s = Some d" and "pointerId e = pointer_id d"
    and "unproject (g_canvas s) (view d) (pos e) = \<lparr>x = Fin a, y = Fin b\<rparr>"
    and "start d = \<lparr>x = Fin ax, y = Fin ay\<rparr>"
    and "center (view d) = \<lparr>x = Fin cx, y = Fin cy\<rparr>"
  shows "pointermove e s =
           s\<lparr>g_view := (g_view s)\<lparr>center := \<lparr>x = Fin (cx - (a - ax)),
                                             y = Fin (cy - (b - ay))\<rparr>\<rparr>\<rparr>
       \<and> center (g_view (pointermove (pointer_at 1 450 300)
             (pointerdown (pointer_at 1 400 300) state0))) = \<lparr>x = Fin (2 - 0.25), y = Fin 0\<rparr>"
proof -
  have "center (g_view (pointermove (pointer_at 1 450 300)
             (pointerdown (pointer_at 1 400 300) state0))) = \<lparr>x = Fin (2 - 0.25), y = Fin 0\<rparr>"
    by (simp add: pointerdown_def pointermove_def unproject_def top_left_def bottom_right_def
        map'_def nsub_def state0_def view0_def canvas800_def pointer_at_def)
  then show ?thesis
    using assms by (simp add: pointermove_def nsub_def Let_def)
qed

theorem pointermove_center_witness:
  "g_dragging state_drag = Some drag0
   \<and> pointerId (pointer_at 1 450 300) = pointer_id drag0
   \<and> unproject (g_canvas state_drag) (view drag0) (pos (pointer_at 1 450 300))
       = \<lparr>x = Fin (9 / 4), y = Fin 0\<rparr>
   \<and> start drag0 = \<lparr>x = Fin 2, y = Fin 0\<rparr>
   \<and> center (view drag0) = \<lparr>x = Fin 2, y = Fin 0\<rparr>
   \<and> pointermove (pointer_at 1 450 300) state_drag =
       state_drag\<lparr>g_view := (g_view state_drag)\<lparr>center := \<lparr>x = Fin (7 / 4), y = Fin 0\<rparr>\<rparr>\<rparr>"
proof -
  have h1: "g_dragging state_drag = Some drag0"
    by (simp add: state_drag_eq)
  have h2: "pointerId (pointer_at 1 450 300) = pointer_id drag0"
    by (simp add: pointer_at_def drag0_def)
  have h3: "unproject (g_canvas state_drag) (view drag0) (pos (pointer_at 1 450 300))
       = \<lparr>x = Fin (9 / 4), y = Fin 0\<rparr>"
    by (simp add: state_drag_eq drag0_def view0_def canvas800_def pointer_at_def unproject_def
        top_left_def bottom_right_def map'_def nsub_def)
  have h4: "start drag0 = \<lparr>x = Fin 2, y = Fin 0\<rparr>"
    by (simp add: drag0_def)
  have h5: "center (view drag0) = \<lparr>x = Fin 2, y = Fin 0\<rparr>"
    by (simp add: drag0_def view0_def)
  show ?thesis
    using pointermove_center [OF h1 h2 h3 h4 h5] h1 h2 h3 h4 h5 by simp
qed

text \<open>
  C10. A pointer-up whose pointer id is not the one of the active drag session changes
  nothing: the session stays and the state is the same. Of all events, only a
  pointer-up with the pointer id of the session ends it.
\<close>

theorem pointerup_other_pointer:
  assumes "g_dragging s = Some d" and "pointerId e \<noteq> pointer_id d"
  shows "pointerup e s = s
       \<and> (g_dragging (handle ev s) = None
            \<longleftrightarrow> (\<exists>e'. ev = PointerUp e' \<and> pointerId e' = pointer_id d))"
  using assms
  by (cases ev)
    (auto simp: pointerdown_def pointermove_def pointerup_def wheel_def resize_def Let_def)

theorem pointerup_other_pointer_witness:
  "g_dragging state_drag = Some drag0
   \<and> pointerId (pointer_at 2 10 10) \<noteq> pointer_id drag0
   \<and> pointerup (pointer_at 2 10 10) state_drag = state_drag
   \<and> g_dragging (handle (PointerUp (pointer_at 1 10 10)) state_drag) = None"
proof -
  have h1: "g_dragging state_drag = Some drag0"
    by (simp add: state_drag_eq)
  have h2: "pointerId (pointer_at 2 10 10) \<noteq> pointer_id drag0"
    by (simp add: pointer_at_def drag0_def)
  have "\<exists>e'. PointerUp (pointer_at 1 10 10) = PointerUp e' \<and> pointerId e' = pointer_id drag0"
    by (simp add: pointer_at_def drag0_def)
  then show ?thesis
    using pointerup_other_pointer [OF h1 h2, of "PointerUp (pointer_at 1 10 10)"] h1 h2
    by simp
qed

section \<open>The grid\<close>

text \<open>
  The literals of the grid as binary64 numbers. The remainder \<^verbatim>\<open>x % 1\<close> of a binary64
  number \<open>x \<ge> 0\<close> is a multiple of \<open>2^-59\<close> when \<open>x\<close> is at least \<open>2^-7\<close>, and no
  multiple of \<open>2^-59\<close> lies between \<open>0.01\<close> and the literal \<^verbatim>\<open>0.01\<close>: the test of the
  code against the literal is the test against \<open>0.01\<close>.
\<close>

lemma lit_hundredth: "lit (1 / 100) = Fin (5764607523034235 / 576460752303423488)"
proof -
  have "round64 (1 / 100) = Fin (of_int 5764607523034235 * 2 powi (- 7 - 52))"
    by (rule round64_eval) (simp_all add: rne_def huge_def)
  then show ?thesis by (simp add: lit_def)
qed

lemma lit_eight_tenths: "lit (8 / 10) = Fin (3602879701896397 / 4503599627370496)"
proof -
  have "round64 (8 / 10) = Fin (of_int 7205759403792794 * 2 powi (- 1 - 52))"
    by (rule round64_eval) (simp_all add: rne_def huge_def)
  then show ?thesis by (simp add: lit_def)
qed

lemma lit_two_tenths: "lit (2 / 10) = Fin (3602879701896397 / 18014398509481984)"
proof -
  have "round64 (2 / 10) = Fin (of_int 7205759403792794 * 2 powi (- 3 - 52))"
    by (rule round64_eval) (simp_all add: rne_def huge_def)
  then show ?thesis by (simp add: lit_def)
qed

lemma light_less_heavy: "nlt (lit (2 / 10)) (lit (8 / 10))"
  using lit_eight_tenths lit_two_tenths by simp

lemma is_double_grid59:
  assumes "is_double d" and "1 / 128 \<le> d"
  shows "\<exists>N::int. d = of_int N * 2 powi (- 59)"
proof -
  define e where "e = expo d"
  define n where "n = rne (d / 2 powi (e - 52))"
  from assms have d: "d = of_int n * 2 powi (e - 52)"
    by (auto simp: is_double_def round64_def Let_def e_def n_def split: if_splits)
  have "- 7 \<le> e"
  proof (cases "e = 1024")
    case True
    then show ?thesis by simp
  next
    case False
    then have "\<bar>d\<bar> < 2 powi (e + 1)"
      unfolding e_def by (rule expo_upper)
    moreover have "(2::real) powi (- 7) \<le> \<bar>d\<bar>" using assms(2) by simp
    ultimately have "(2::real) powi (- 7) < 2 powi (e + 1)" by linarith
    then have "- 7 < e + 1" by (simp only: p2_less_iff)
    then show ?thesis by simp
  qed
  then have "0 \<le> e + 7" by simp
  then have "(2::real) powi (e + 7) = of_int (2 ^ nat (e + 7))"
    by (simp add: power_int_nonneg_exp)
  moreover have "(2::real) powi ((e + 7) + (- 59)) = 2 powi (e + 7) * 2 powi (- 59)"
    by (rule power_int_add) simp
  then have "(2::real) powi (e - 52) = 2 powi (e + 7) * 2 powi (- 59)"
    by (simp only: add_uminus_conv_diff diff_add_eq [symmetric]) simp
  ultimately have "d = of_int (n * 2 ^ nat (e + 7)) * 2 powi (- 59)"
    using d by simp
  then show ?thesis by blast
qed

lemma frac_hundredth:
  assumes "is_double a" and "0 \<le> a"
  shows "a - of_int \<lfloor>a\<rfloor> < 5764607523034235 / 576460752303423488
         \<longleftrightarrow> a - of_int \<lfloor>a\<rfloor> < 1 / 100"
proof (cases "1 / 128 \<le> a")
  case False
  then have "\<lfloor>a\<rfloor> = 0" using assms(2) by (simp add: floor_eq_iff)
  with False show ?thesis by simp
next
  case True
  from is_double_grid59 [OF assms(1) True] obtain N :: int
    where N: "a = of_int N * 2 powi (- 59)" by blast
  define K where "K = N - \<lfloor>a\<rfloor> * 2 ^ 59"
  have p: "(2::real) powi (- 59) = 1 / 576460752303423488"
    by (simp add: power_int_minus field_simps)
  have fr: "a - of_int \<lfloor>a\<rfloor> = of_int K / 576460752303423488"
    by (simp add: K_def N p)
  have "of_int K / (576460752303423488::real) < 5764607523034235 / 576460752303423488
        \<longleftrightarrow> K < 5764607523034235"
    by (simp add: divide_less_cancel)
  moreover have "of_int K / (576460752303423488::real) < 1 / 100 \<longleftrightarrow> K < 5764607523034235"
  proof
    assume "of_int K / (576460752303423488::real) < 1 / 100"
    then have "real_of_int K * 100 < 576460752303423488" by (simp add: field_simps)
    then have "K * 100 < 576460752303423488" by linarith
    then show "K < 5764607523034235" by simp
  next
    assume "K < 5764607523034235"
    then have "K * 100 < 576460752303423488" by simp
    then have "real_of_int K * 100 < 576460752303423488" by linarith 
    then show "of_int K / (576460752303423488::real) < 1 / 100" by (simp add: field_simps)
  qed
  ultimately show ?thesis by (simp add: fr)
qed

lemma body1_width:
  assumes "is_double a" and "0 \<le> a"
  shows "(if nlt (nmod (Fin a) (Fin 1)) (lit (1 / 100)) then lit (8 / 10) else lit (2 / 10))
         = spec_line_width a"
proof -
  have m: "nmod (Fin a) (Fin 1) = Fin (a - of_int \<lfloor>a\<rfloor>)"
    using assms(2) by (simp add: trunc_def)
  show ?thesis
    unfolding m lit_hundredth spec_line_width_def
    using frac_hundredth [OF assms] by simp
qed

text \<open>The body of the first loop adds one stroke, with the width set just before it.\<close>

lemma grid_body1_drawn:
  assumes "is_double a" and "0 \<le> a"
  shows "drawn (grid_body1 c v (Fin a) ctx) = drawn ctx @ [spec_stroke c v a]"
proof -
  have "drawn (grid_body1 c v (Fin a) ctx) = drawn ctx @
      [\<lparr>s_path = vline c v (Fin a), s_style = ''rgba(0, 0, 0, 0.3)'',
        s_width = (if nlt (nmod (Fin a) (Fin 1)) (lit (1 / 100))
                   then lit (8 / 10) else lit (2 / 10))\<rparr>]"
    by (simp add: grid_body1_def Let_def stroke_def lineTo_def moveTo_def beginPath_def
        vline_def)
  then show ?thesis
    by (simp only: body1_width [OF assms] spec_stroke_def)
qed

lemma grid_body_x_keeps:
  "lineWidth (grid_body_x c v gx ctx) = lineWidth ctx
   \<and> (\<exists>s. drawn (grid_body_x c v gx ctx) = drawn ctx @ [s] \<and> s_width s = lineWidth ctx)"
  by (simp add: grid_body_x_def Let_def stroke_def lineTo_def moveTo_def beginPath_def)

lemma grid_body_y_keeps:
  "lineWidth (grid_body_y c v gy ctx) = lineWidth ctx
   \<and> (\<exists>s. drawn (grid_body_y c v gy ctx) = drawn ctx @ [s] \<and> s_width s = lineWidth ctx)"
  by (simp add: grid_body_y_def Let_def stroke_def lineTo_def moveTo_def beginPath_def)

lemma grid_axes_drawn:
  "drawn (grid_axes c v ctx) = drawn ctx @ [axis_h c v, axis_v c v]
   \<and> lineWidth (grid_axes c v ctx) = lit (2 / 10)"
  by (simp add: grid_axes_def Let_def stroke_def lineTo_def moveTo_def beginPath_def
      axis_h_def axis_v_def)

text \<open>
  With granularity \<open>0.5\<close> the coordinates of the loops are halves of integers, which
  the additions and subtractions of the loops compute exactly up to \<open>2^52\<close>; so the
  loops end when the corners of the view are finite and within \<open>2^50\<close>.
\<close>

lemma round64_half_int:
  assumes "\<bar>k\<bar> \<le> 2 ^ 53"
  shows "round64 (of_int k / 2) = Fin (of_int k / 2)"
proof -
  have "\<bar>real_of_int k\<bar> \<le> 2 ^ 53"
    using assms by (metis of_int_abs of_int_le_numeral_power_cancel_iff)
  then have "\<bar>real_of_int k * 2 powi (- 1)\<bar> < huge"
    by (simp add: huge_def power_int_minus)
  from round64_exact [OF assms _ this] show ?thesis
    by (simp add: power_int_minus field_simps)
qed

lemma half_up:
  assumes "\<bar>k + 1\<bar> \<le> 2 ^ 53"
  shows "fadd (Fin (of_int k / 2)) (Fin (1 / 2)) = Fin (of_int (k + 1) / 2)"
proof -
  have "of_int k / 2 + 1 / 2 = (of_int (k + 1) / 2 :: real)" by simp
  with round64_half_int [OF assms] show ?thesis
    by (simp only: fadd_def nadd.simps fl.simps)
qed

lemma half_down:
  assumes "\<bar>k - 1\<bar> \<le> 2 ^ 53"
  shows "fsub (Fin (of_int k / 2)) (Fin (1 / 2)) = Fin (of_int (k - 1) / 2)"
proof -
  have "of_int k / 2 + - (1 / 2) = (of_int (k - 1) / 2 :: real)" by simp
  with round64_half_int [OF assms] show ?thesis
    by (simp only: fsub_def nsub_def nneg.simps nadd.simps fl.simps)
qed

lemma is_double_half: "\<bar>k\<bar> \<le> 2 ^ 53 \<Longrightarrow> is_double (of_int k / 2)"
  by (simp add: is_double_def round64_half_int)

lemma grid_loop1_half:
  assumes "x (bottom_right64 v) = Fin bx" and "bx \<le> 2 ^ 50" and "1 \<le> k"
  shows "\<exists>ctx'. grid_loop1 c v (Fin (1 / 2)) (Fin (of_int k / 2)) ctx = Some ctx'
           \<and> drawn ctx' = drawn ctx
               @ map (\<lambda>i. spec_stroke c v (of_int i / 2)) [k..\<lfloor>2 * bx\<rfloor>]"
  using assms(3)
proof (induction "nat (\<lfloor>2 * bx\<rfloor> + 1 - k)" arbitrary: k ctx)
  case 0
  then have "\<lfloor>2 * bx\<rfloor> < k" by simp
  then have "\<not> of_int k \<le> 2 * bx" using le_floor_iff [of k "2 * bx"] by linarith
  then have "\<not> nle (Fin (of_int k / 2)) (x (bottom_right64 v))"
    by (simp add: assms(1))
  with \<open>\<lfloor>2 * bx\<rfloor> < k\<close> show ?case
    by (subst grid_loop1.simps) simp
next
  case (Suc n)
  then have le: "k \<le> \<lfloor>2 * bx\<rfloor>" by simp
  then have kb: "of_int k \<le> 2 * bx" using le_floor_iff [of k "2 * bx"] by linarith
  then have "real_of_int k \<le> 2 ^ 51" using assms(2) by simp
  then have k51: "k \<le> 2 ^ 51"
    by (metis of_int_le_numeral_power_cancel_iff)
  have cond: "nle (Fin (of_int k / 2)) (x (bottom_right64 v))"
    using kb by (simp add: assms(1))
  have up: "fadd (Fin (of_int k / 2)) (Fin (1 / 2)) = Fin (of_int (k + 1) / 2)"
    using k51 Suc.prems by (intro half_up) simp
  have dbl: "is_double (of_int k / 2)"
    using k51 Suc.prems by (intro is_double_half) simp
  have pos: "(0::real) \<le> of_int k / 2" using Suc.prems by simp
  have "n = nat (\<lfloor>2 * bx\<rfloor> + 1 - (k + 1))" using Suc.hyps(2) by simp
  from Suc.hyps(1) [OF this, of "grid_body1 c v (Fin (of_int k / 2)) ctx"] Suc.prems
  obtain ctx' where r: "grid_loop1 c v (Fin (1 / 2)) (Fin (of_int (k + 1) / 2))
        (grid_body1 c v (Fin (of_int k / 2)) ctx) = Some ctx'"
    and d: "drawn ctx' = drawn (grid_body1 c v (Fin (of_int k / 2)) ctx)
               @ map (\<lambda>i. spec_stroke c v (of_int i / 2)) [k + 1..\<lfloor>2 * bx\<rfloor>]"
    by auto
  have "grid_loop1 c v (Fin (1 / 2)) (Fin (of_int k / 2)) ctx = Some ctx'"
    by (subst grid_loop1.simps) (simp only: cond up r if_True)
  moreover have "[k..\<lfloor>2 * bx\<rfloor>] = k # [k + 1..\<lfloor>2 * bx\<rfloor>]"
    using le by (simp add: upto_rec1)
  ultimately show ?case
    using d grid_body1_drawn [OF dbl pos, of c v ctx] by simp
qed

lemma grid_loop2_half:
  assumes "x (top_left64 v) = Fin tx" and "- (2 ^ 50) \<le> tx" and "k \<le> 1"
  shows "\<exists>ctx' post. grid_loop2 c v (Fin (1 / 2)) (Fin (of_int k / 2)) ctx = Some ctx'
           \<and> lineWidth ctx' = lineWidth ctx \<and> drawn ctx' = drawn ctx @ post
           \<and> (\<forall>s\<in>set post. s_width s = lineWidth ctx)"
  using assms(3)
proof (induction "nat (k + 1 - \<lceil>2 * tx\<rceil>)" arbitrary: k ctx)
  case 0
  then have "k < \<lceil>2 * tx\<rceil>" by simp
  then have "\<not> 2 * tx \<le> of_int k" using ceiling_le_iff [of "2 * tx" k] by linarith
  then have "\<not> nge (Fin (of_int k / 2)) (x (top_left64 v))"
    by (simp add: assms(1) nge_def)
  then show ?case
    by (subst grid_loop2.simps) simp
next
  case (Suc n)
  then have le: "\<lceil>2 * tx\<rceil> \<le> k" by simp
  then have kb: "2 * tx \<le> of_int k" using ceiling_le_iff [of "2 * tx" k] by linarith
  then have "- (2 ^ 51) \<le> real_of_int k" using assms(2) by simp
  then have "real_of_int (- (2 ^ 51)) \<le> real_of_int k" by simp
  then have k51: "- (2 ^ 51) \<le> k" by (simp only: of_int_le_iff)
  have cond: "nge (Fin (of_int k / 2)) (x (top_left64 v))"
    using kb by (simp add: assms(1) nge_def)
  have down: "fsub (Fin (of_int k / 2)) (Fin (1 / 2)) = Fin (of_int (k - 1) / 2)"
    using k51 Suc.prems by (intro half_down) simp
  have "n = nat ((k - 1) + 1 - \<lceil>2 * tx\<rceil>)" using Suc.hyps(2) by simp
  from Suc.hyps(1) [OF this, of "grid_body_x c v (Fin (of_int k / 2)) ctx"] Suc.prems
  obtain ctx' post where r: "grid_loop2 c v (Fin (1 / 2)) (Fin (of_int (k - 1) / 2))
        (grid_body_x c v (Fin (of_int k / 2)) ctx) = Some ctx'"
    and l: "lineWidth ctx' = lineWidth (grid_body_x c v (Fin (of_int k / 2)) ctx)"
    and d: "drawn ctx' = drawn (grid_body_x c v (Fin (of_int k / 2)) ctx) @ post"
    and p: "\<forall>s\<in>set post. s_width s = lineWidth (grid_body_x c v (Fin (of_int k / 2)) ctx)"
    by auto
  have "grid_loop2 c v (Fin (1 / 2)) (Fin (of_int k / 2)) ctx = Some ctx'"
    by (subst grid_loop2.simps) (simp only: cond down r if_True)
  moreover from grid_body_x_keeps [of c v "Fin (of_int k / 2)" ctx] obtain s
    where "lineWidth (grid_body_x c v (Fin (of_int k / 2)) ctx) = lineWidth ctx"
      and "drawn (grid_body_x c v (Fin (of_int k / 2)) ctx) = drawn ctx @ [s]"
      and "s_width s = lineWidth ctx"
    by auto
  ultimately have "grid_loop2 c v (Fin (1 / 2)) (Fin (of_int k / 2)) ctx = Some ctx'
           \<and> lineWidth ctx' = lineWidth ctx \<and> drawn ctx' = drawn ctx @ (s # post)
           \<and> (\<forall>s\<in>set (s # post). s_width s = lineWidth ctx)"
    using l d p by simp
  then show ?case by blast
qed

lemma grid_loop3_half:
  assumes "y (top_left64 v) = Fin ty" and "ty \<le> 2 ^ 50" and "1 \<le> k"
  shows "\<exists>ctx' post. grid_loop3 c v (Fin (1 / 2)) (Fin (of_int k / 2)) ctx = Some ctx'
           \<and> lineWidth ctx' = lineWidth ctx \<and> drawn ctx' = drawn ctx @ post
           \<and> (\<forall>s\<in>set post. s_width s = lineWidth ctx)"
  using assms(3)
proof (induction "nat (\<lfloor>2 * ty\<rfloor> + 1 - k)" arbitrary: k ctx)
  case 0
  then have "\<lfloor>2 * ty\<rfloor> < k" by simp
  then have "\<not> of_int k \<le> 2 * ty" using le_floor_iff [of k "2 * ty"] by linarith
  then have "\<not> nle (Fin (of_int k / 2)) (y (top_left64 v))"
    by (simp add: assms(1))
  then show ?case
    by (subst grid_loop3.simps) simp
next
  case (Suc n)
  then have le: "k \<le> \<lfloor>2 * ty\<rfloor>" by simp
  then have kb: "of_int k \<le> 2 * ty" using le_floor_iff [of k "2 * ty"] by linarith
  then have "real_of_int k \<le> 2 ^ 51" using assms(2) by simp
  then have k51: "k \<le> 2 ^ 51"
    by (metis of_int_le_numeral_power_cancel_iff)
  have cond: "nle (Fin (of_int k / 2)) (y (top_left64 v))"
    using kb by (simp add: assms(1))
  have up: "fadd (Fin (of_int k / 2)) (Fin (1 / 2)) = Fin (of_int (k + 1) / 2)"
    using k51 Suc.prems by (intro half_up) simp
  have "n = nat (\<lfloor>2 * ty\<rfloor> + 1 - (k + 1))" using Suc.hyps(2) by simp
  from Suc.hyps(1) [OF this, of "grid_body_y c v (Fin (of_int k / 2)) ctx"] Suc.prems
  obtain ctx' post where r: "grid_loop3 c v (Fin (1 / 2)) (Fin (of_int (k + 1) / 2))
        (grid_body_y c v (Fin (of_int k / 2)) ctx) = Some ctx'"
    and l: "lineWidth ctx' = lineWidth (grid_body_y c v (Fin (of_int k / 2)) ctx)"
    and d: "drawn ctx' = drawn (grid_body_y c v (Fin (of_int k / 2)) ctx) @ post"
    and p: "\<forall>s\<in>set post. s_width s = lineWidth (grid_body_y c v (Fin (of_int k / 2)) ctx)"
    by auto
  have "grid_loop3 c v (Fin (1 / 2)) (Fin (of_int k / 2)) ctx = Some ctx'"
    by (subst grid_loop3.simps) (simp only: cond up r if_True)
  moreover from grid_body_y_keeps [of c v "Fin (of_int k / 2)" ctx] obtain s
    where "lineWidth (grid_body_y c v (Fin (of_int k / 2)) ctx) = lineWidth ctx"
      and "drawn (grid_body_y c v (Fin (of_int k / 2)) ctx) = drawn ctx @ [s]"
      and "s_width s = lineWidth ctx"
    by auto
  ultimately have "grid_loop3 c v (Fin (1 / 2)) (Fin (of_int k / 2)) ctx = Some ctx'
           \<and> lineWidth ctx' = lineWidth ctx \<and> drawn ctx' = drawn ctx @ (s # post)
           \<and> (\<forall>s\<in>set (s # post). s_width s = lineWidth ctx)"
    using l d p by simp
  then show ?case by blast
qed

lemma grid_loop4_half:
  assumes "y (bottom_right64 v) = Fin by'" and "- (2 ^ 50) \<le> by'" and "k \<le> 1"
  shows "\<exists>ctx' post. grid_loop4 c v (Fin (1 / 2)) (Fin (of_int k / 2)) ctx = Some ctx'
           \<and> lineWidth ctx' = lineWidth ctx \<and> drawn ctx' = drawn ctx @ post
           \<and> (\<forall>s\<in>set post. s_width s = lineWidth ctx)"
  using assms(3)
proof (induction "nat (k + 1 - \<lceil>2 * by'\<rceil>)" arbitrary: k ctx)
  case 0
  then have "k < \<lceil>2 * by'\<rceil>" by simp
  then have "\<not> 2 * by' \<le> of_int k" using ceiling_le_iff [of "2 * by'" k] by linarith
  then have "\<not> nge (Fin (of_int k / 2)) (y (bottom_right64 v))"
    by (simp add: assms(1) nge_def)
  then show ?case
    by (subst grid_loop4.simps) simp
next
  case (Suc n)
  then have le: "\<lceil>2 * by'\<rceil> \<le> k" by simp
  then have kb: "2 * by' \<le> of_int k" using ceiling_le_iff [of "2 * by'" k] by linarith
  then have "- (2 ^ 51) \<le> real_of_int k" using assms(2) by simp
  then have "real_of_int (- (2 ^ 51)) \<le> real_of_int k" by simp
  then have k51: "- (2 ^ 51) \<le> k" by (simp only: of_int_le_iff)
  have cond: "nge (Fin (of_int k / 2)) (y (bottom_right64 v))"
    using kb by (simp add: assms(1) nge_def)
  have down: "fsub (Fin (of_int k / 2)) (Fin (1 / 2)) = Fin (of_int (k - 1) / 2)"
    using k51 Suc.prems by (intro half_down) simp
  have "n = nat ((k - 1) + 1 - \<lceil>2 * by'\<rceil>)" using Suc.hyps(2) by simp
  from Suc.hyps(1) [OF this, of "grid_body_y c v (Fin (of_int k / 2)) ctx"] Suc.prems
  obtain ctx' post where r: "grid_loop4 c v (Fin (1 / 2)) (Fin (of_int (k - 1) / 2))
        (grid_body_y c v (Fin (of_int k / 2)) ctx) = Some ctx'"
    and l: "lineWidth ctx' = lineWidth (grid_body_y c v (Fin (of_int k / 2)) ctx)"
    and d: "drawn ctx' = drawn (grid_body_y c v (Fin (of_int k / 2)) ctx) @ post"
    and p: "\<forall>s\<in>set post. s_width s = lineWidth (grid_body_y c v (Fin (of_int k / 2)) ctx)"
    by auto
  have "grid_loop4 c v (Fin (1 / 2)) (Fin (of_int k / 2)) ctx = Some ctx'"
    by (subst grid_loop4.simps) (simp only: cond down r if_True)
  moreover from grid_body_y_keeps [of c v "Fin (of_int k / 2)" ctx] obtain s
    where "lineWidth (grid_body_y c v (Fin (of_int k / 2)) ctx) = lineWidth ctx"
      and "drawn (grid_body_y c v (Fin (of_int k / 2)) ctx) = drawn ctx @ [s]"
      and "s_width s = lineWidth ctx"
    by auto
  ultimately have "grid_loop4 c v (Fin (1 / 2)) (Fin (of_int k / 2)) ctx = Some ctx'
           \<and> lineWidth ctx' = lineWidth ctx \<and> drawn ctx' = drawn ctx @ (s # post)
           \<and> (\<forall>s\<in>set (s # post). s_width s = lineWidth ctx)"
    using l d p by simp
  then show ?case by blast
qed

lemma grid_half:
  assumes "x (bottom_right64 v) = Fin bx" and "bx \<le> 2 ^ 50"
    and "x (top_left64 v) = Fin tx" and "- (2 ^ 50) \<le> tx"
    and "y (top_left64 v) = Fin ty" and "ty \<le> 2 ^ 50"
    and "y (bottom_right64 v) = Fin by'" and "- (2 ^ 50) \<le> by'"
  shows "\<exists>ctx' post. grid c v (Fin (1 / 2)) ctx = Some ctx'
           \<and> drawn ctx' = drawn ctx @ [axis_h c v, axis_v c v]
               @ map (\<lambda>i. spec_stroke c v (of_int i / 2)) [1..\<lfloor>2 * bx\<rfloor>] @ post
           \<and> (\<forall>s\<in>set post. s_width s = lit (2 / 10))"
proof -
  from grid_loop1_half [OF assms(1,2), of 1 c "grid_axes c v ctx"]
  obtain ctx1 where r1: "grid_loop1 c v (Fin (1 / 2)) (Fin (1 / 2)) (grid_axes c v ctx) = Some ctx1"
    and d1: "drawn ctx1 = drawn (grid_axes c v ctx)
               @ map (\<lambda>i. spec_stroke c v (of_int i / 2)) [1..\<lfloor>2 * bx\<rfloor>]"
    by auto
  define ctx1' where "ctx1' = ctx1\<lparr>strokeStyle := ''rgba(0, 0, 0, 0.3)'', lineWidth := lit (2 / 10)\<rparr>"
  have w1: "lineWidth ctx1' = lit (2 / 10)" and dd1: "drawn ctx1' = drawn ctx1"
    by (simp_all add: ctx1'_def)
  from grid_loop2_half [OF assms(3,4), of 1 c ctx1']
  obtain ctx2 post2 where r2: "grid_loop2 c v (Fin (1 / 2)) (Fin (1 / 2)) ctx1' = Some ctx2"
    and w2: "lineWidth ctx2 = lineWidth ctx1'" and d2: "drawn ctx2 = drawn ctx1' @ post2"
    and p2: "\<forall>s\<in>set post2. s_width s = lineWidth ctx1'"
    by auto
  from grid_loop3_half [OF assms(5,6), of 1 c ctx2]
  obtain ctx3 post3 where r3: "grid_loop3 c v (Fin (1 / 2)) (Fin (1 / 2)) ctx2 = Some ctx3"
    and w3: "lineWidth ctx3 = lineWidth ctx2" and d3: "drawn ctx3 = drawn ctx2 @ post3"
    and p3: "\<forall>s\<in>set post3. s_width s = lineWidth ctx2"
    by auto
  from grid_loop4_half [OF assms(7,8), of 1 c ctx3]
  obtain ctx4 post4 where r4: "grid_loop4 c v (Fin (1 / 2)) (Fin (1 / 2)) ctx3 = Some ctx4"
    and w4: "lineWidth ctx4 = lineWidth ctx3" and d4: "drawn ctx4 = drawn ctx3 @ post4"
    and p4: "\<forall>s\<in>set post4. s_width s = lineWidth ctx3"
    by auto
  have "grid c v (Fin (1 / 2)) ctx = Some ctx4"
    using r1 r2 r3 r4 by (simp add: grid_def ctx1'_def)
  moreover have "drawn ctx4 = drawn ctx @ [axis_h c v, axis_v c v]
               @ map (\<lambda>i. spec_stroke c v (of_int i / 2)) [1..\<lfloor>2 * bx\<rfloor>]
               @ (post2 @ post3 @ post4)"
    using d1 dd1 d2 d3 d4 grid_axes_drawn [of c v ctx] by simp
  moreover have "\<forall>s\<in>set (post2 @ post3 @ post4). s_width s = lit (2 / 10)"
    using p2 p3 p4 w1 w2 w3 by auto
  ultimately show ?thesis by blast
qed

text \<open>
  A run of the first loop with a positive binary64 granularity: the coordinate stays a
  positive binary64 number or becomes \<open>+\<infinity>\<close>, and from \<open>+\<infinity>\<close> the loop returns only
  at once.
\<close>

lemma is_double_pos_ge:
  assumes "is_double a" and "0 < a"
  shows "2 powi (- 1074) \<le> a"
proof -
  from is_double_multiple [OF assms(1)] obtain N :: int
    where N: "a = of_int N * 2 powi (- 1074)" by blast
  have "0 < real_of_int N"
    using assms(2) unfolding N by (simp add: zero_less_mult_iff)
  then have "1 \<le> N" by simp
  then have "1 \<le> real_of_int N" by simp
  then have "1 * (2::real) powi (- 1074) \<le> real_of_int N * 2 powi (- 1074)"
    by (intro mult_right_mono) simp_all
  then show ?thesis unfolding N by simp
qed

lemma fadd_pos:
  assumes "is_double a" and "0 < a" and "is_double g" and "0 < g"
  shows "fadd (Fin a) (Fin g) = PInf
         \<or> (\<exists>s. fadd (Fin a) (Fin g) = Fin s \<and> is_double s \<and> 0 < s)"
proof (cases "round64 (a + g)")
  case (Fin s)
  have "is_double s" using Fin by (rule round64_range)
  moreover have "0 \<le> a + g" using assms(2,4) by simp
  with Fin have "0 \<le> s" by (rule round64_nonneg)
  moreover have "s \<noteq> 0"
  proof
    assume "s = 0"
    with Fin have z: "round64 (a + g) = Fin 0" by simp
    define P :: real where "P = 2 powi (- 1074)"
    have "\<bar>a + g\<bar> < P" unfolding P_def using z by (rule round64_zero_only)
    moreover have "P \<le> a" unfolding P_def using assms(1,2) by (rule is_double_pos_ge)
    ultimately show False using assms(4) by linarith
  qed
  ultimately show ?thesis using Fin by (simp add: fadd_def)
next
  case PInf
  then show ?thesis by (simp add: fadd_def)
next
  case NInf
  with round64_pos_not_NInf [of "a + g"] assms(2,4) show ?thesis by simp
next
  case NaN
  then show ?thesis by simp
qed

lemma nle_PInf: "nle PInf b \<longleftrightarrow> b = PInf"
  by (cases b) simp_all

lemma grid_loop1_returns:
  assumes "grid_loop1 c v g a ctx = Some ctx'"
  shows "\<forall>ga. g = Fin ga \<and> is_double ga \<and> 0 < ga \<longrightarrow>
           (a = PInf \<longrightarrow> x (bottom_right64 v) \<noteq> PInf \<and> ctx' = ctx)
           \<and> (\<forall>aa. a = Fin aa \<and> is_double aa \<and> 0 < aa \<longrightarrow>
                 (\<exists>as. drawn ctx' = drawn ctx @ map (spec_stroke c v) as
                    \<and> (\<forall>t\<in>set as. is_double t \<and> 0 < t)))"
proof (rule grid_loop1.raw_induct
    [where P = "\<lambda>c v g a ctx ctx'. \<forall>ga. g = Fin ga \<and> is_double ga \<and> 0 < ga \<longrightarrow>
           (a = PInf \<longrightarrow> x (bottom_right64 v) \<noteq> PInf \<and> ctx' = ctx)
           \<and> (\<forall>aa. a = Fin aa \<and> is_double aa \<and> 0 < aa \<longrightarrow>
                 (\<exists>as. drawn ctx' = drawn ctx @ map (spec_stroke c v) as
                    \<and> (\<forall>t\<in>set as. is_double t \<and> 0 < t)))", OF _ assms])
  fix f c1 v1 g1 a1 ctx1 r1
  assume IH: "\<And>c v g a ctx ctx'. f c v g a ctx = Some ctx' \<Longrightarrow>
         \<forall>ga. g = Fin ga \<and> is_double ga \<and> 0 < ga \<longrightarrow>
           (a = PInf \<longrightarrow> x (bottom_right64 v) \<noteq> PInf \<and> ctx' = ctx)
           \<and> (\<forall>aa. a = Fin aa \<and> is_double aa \<and> 0 < aa \<longrightarrow>
                 (\<exists>as. drawn ctx' = drawn ctx @ map (spec_stroke c v) as
                    \<and> (\<forall>t\<in>set as. is_double t \<and> 0 < t)))"
    and eq: "(if nle a1 (x (bottom_right64 v1))
              then f c1 v1 g1 (fadd a1 g1) (grid_body1 c1 v1 a1 ctx1)
              else Some ctx1) = Some r1"
  show "\<forall>ga. g1 = Fin ga \<and> is_double ga \<and> 0 < ga \<longrightarrow>
           (a1 = PInf \<longrightarrow> x (bottom_right64 v1) \<noteq> PInf \<and> r1 = ctx1)
           \<and> (\<forall>aa. a1 = Fin aa \<and> is_double aa \<and> 0 < aa \<longrightarrow>
                 (\<exists>as. drawn r1 = drawn ctx1 @ map (spec_stroke c1 v1) as
                    \<and> (\<forall>t\<in>set as. is_double t \<and> 0 < t)))"
  proof (intro allI impI conjI)
    fix ga
    assume g: "g1 = Fin ga \<and> is_double ga \<and> 0 < ga" and a: "a1 = PInf"
    show "x (bottom_right64 v1) \<noteq> PInf"
    proof
      assume b: "x (bottom_right64 v1) = PInf"
      with eq a g have "f c1 v1 g1 PInf (grid_body1 c1 v1 a1 ctx1) = Some r1"
        by (simp add: fadd_def)
      from IH [OF this] g b show False by blast
    qed
  next
    fix ga
    assume g: "g1 = Fin ga \<and> is_double ga \<and> 0 < ga" and a: "a1 = PInf"
    show "r1 = ctx1"
    proof (cases "x (bottom_right64 v1) = PInf")
      case True
      with eq a g have "f c1 v1 g1 PInf (grid_body1 c1 v1 a1 ctx1) = Some r1"
        by (simp add: fadd_def)
      from IH [OF this] g True show ?thesis by blast
    next
      case False
      with eq a show ?thesis by (simp add: nle_PInf)
    qed
  next
    fix ga aa
    assume g: "g1 = Fin ga \<and> is_double ga \<and> 0 < ga"
      and a: "a1 = Fin aa \<and> is_double aa \<and> 0 < aa"
    show "\<exists>as. drawn r1 = drawn ctx1 @ map (spec_stroke c1 v1) as
                    \<and> (\<forall>t\<in>set as. is_double t \<and> 0 < t)"
    proof (cases "nle a1 (x (bottom_right64 v1))")
      case False
      with eq have "r1 = ctx1" by simp
      then have "drawn r1 = drawn ctx1 @ map (spec_stroke c1 v1) []
                    \<and> (\<forall>t\<in>set []. is_double t \<and> 0 < t)" by simp
      then show ?thesis by blast
    next
      case True
      with eq have run: "f c1 v1 g1 (fadd a1 g1) (grid_body1 c1 v1 a1 ctx1) = Some r1"
        by simp
      have body: "drawn (grid_body1 c1 v1 a1 ctx1) = drawn ctx1 @ [spec_stroke c1 v1 aa]"
        using a by (simp add: grid_body1_drawn)
      from fadd_pos [of aa ga] a g
      consider "fadd a1 g1 = PInf"
        | s where "fadd a1 g1 = Fin s" "is_double s" "0 < s"
        by auto
      then show ?thesis
      proof cases
        case 1
        with IH [OF run] g have "r1 = grid_body1 c1 v1 a1 ctx1" by blast
        with body a have "drawn r1 = drawn ctx1 @ map (spec_stroke c1 v1) [aa]
                    \<and> (\<forall>t\<in>set [aa]. is_double t \<and> 0 < t)" by simp
        then show ?thesis by blast
      next
        case 2
        with IH [OF run] g obtain as
          where "drawn r1 = drawn (grid_body1 c1 v1 a1 ctx1) @ map (spec_stroke c1 v1) as"
            and "\<forall>t\<in>set as. is_double t \<and> 0 < t"
          by blast
        with body a have "drawn r1 = drawn ctx1 @ map (spec_stroke c1 v1) (aa # as)
                    \<and> (\<forall>t\<in>set (aa # as). is_double t \<and> 0 < t)" by simp
        then show ?thesis by blast
      qed
    qed
  qed
qed

lemma corners_view0:
  "top_left64 view0 = \<lparr>x = Fin 0, y = Fin 4\<rparr>"
  "bottom_right64 view0 = \<lparr>x = Fin 4, y = Fin (- 4)\<rparr>"
proof -
  have r: "round64 2 = Fin 2" "round64 4 = Fin 4" "round64 (- 4) = Fin (- 4)"
    using round64_of_int [of 2] round64_of_int [of 4] round64_of_int [of "- 4"] by simp_all
  show "top_left64 view0 = \<lparr>x = Fin 0, y = Fin 4\<rparr>"
    using r by (simp add: top_left64_def view0_def plot_view_def fsub_def fadd_def fdiv_def nsub_def)
  then show "bottom_right64 view0 = \<lparr>x = Fin 4, y = Fin (- 4)\<rparr>"
    using r by (simp add: bottom_right64_def view0_def plot_view_def fsub_def fadd_def nsub_def)
qed

text \<open>
  C8. When \<open>grid\<close> is called with granularity \<open>0.5\<close> on a view whose computed corners
  are finite and within \<open>2^50\<close> of the origin and whose right edge is at plot-\<open>x\<close> \<open>1\<close>
  or beyond, it returns, and the strokes it has made are, in this order: the two axes;
  the vertical lines of the positive-\<open>x\<close> loop at \<open>0.5\<close>, \<open>1\<close>, \<open>1.5\<close>, ... up to the right
  edge, each with the width that the statement gives its coordinate; then strokes of the
  light width only. The line at \<open>0.5\<close> has the light width \<open>0.2\<close> and the line at \<open>1\<close>
  the heavy width \<open>0.8\<close>, and the light width is the smaller one. More generally, the
  body of the positive-\<open>x\<close> loop at a binary64 coordinate \<open>a \<ge> 0\<close> makes exactly one
  stroke, the vertical line at \<open>a\<close>, heavy exactly when \<open>a\<close> is less than \<open>0.01\<close> above
  an integer; and a run of that loop with a positive binary64 granularity that returns
  has made such strokes only, at positive binary64 coordinates.
\<close>

theorem grid_major_lines:
  assumes "x (bottom_right64 v) = Fin bx" and "1 \<le> bx" and "bx \<le> 2 ^ 50"
    and "x (top_left64 v) = Fin tx" and "- (2 ^ 50) \<le> tx"
    and "y (top_left64 v) = Fin ty" and "ty \<le> 2 ^ 50"
    and "y (bottom_right64 v) = Fin by'" and "- (2 ^ 50) \<le> by'"
  shows "(\<exists>ctx' post. grid c v (Fin (1 / 2)) ctx = Some ctx'
           \<and> drawn ctx' = drawn ctx
               @ [axis_h c v, axis_v c v, spec_stroke c v (1 / 2), spec_stroke c v 1]
               @ map (\<lambda>i. spec_stroke c v (of_int i / 2)) [3..\<lfloor>2 * bx\<rfloor>] @ post
           \<and> (\<forall>s\<in>set post. s_width s = lit (2 / 10)))
       \<and> s_width (spec_stroke c v (1 / 2)) = lit (2 / 10)
       \<and> s_width (spec_stroke c v 1) = lit (8 / 10)
       \<and> nlt (lit (2 / 10)) (lit (8 / 10))
       \<and> (is_double a \<and> 0 \<le> a \<longrightarrow>
            drawn (grid_body1 c' v' (Fin a) q) = drawn q @ [spec_stroke c' v' a])
       \<and> (is_double g \<and> 0 < g \<and> grid_loop1 c' v' (Fin g) (Fin g) q = Some q' \<longrightarrow>
            (\<exists>as. drawn q' = drawn q @ map (spec_stroke c' v') as
               \<and> (\<forall>t\<in>set as. is_double t \<and> 0 < t)))"
proof -
  have "2 \<le> \<lfloor>2 * bx\<rfloor>" using assms(2) by (simp add: le_floor_iff)
  then have "[1..\<lfloor>2 * bx\<rfloor>] = 1 # 2 # [3..\<lfloor>2 * bx\<rfloor>]"
    by (simp add: upto_rec1)
  then have scen: "\<exists>ctx' post. grid c v (Fin (1 / 2)) ctx = Some ctx'
           \<and> drawn ctx' = drawn ctx
               @ [axis_h c v, axis_v c v, spec_stroke c v (1 / 2), spec_stroke c v 1]
               @ map (\<lambda>i. spec_stroke c v (of_int i / 2)) [3..\<lfloor>2 * bx\<rfloor>] @ post
           \<and> (\<forall>s\<in>set post. s_width s = lit (2 / 10))"
    using grid_half [OF assms(1,3-9), of c ctx] by simp
  have half: "\<lfloor>1 / 2 :: real\<rfloor> = 0" by simp
  have w: "s_width (spec_stroke c v (1 / 2)) = lit (2 / 10)"
    "s_width (spec_stroke c v 1) = lit (8 / 10)"
    by (simp_all add: spec_stroke_def spec_line_width_def half)
  have body: "is_double a \<and> 0 \<le> a \<longrightarrow>
            drawn (grid_body1 c' v' (Fin a) q) = drawn q @ [spec_stroke c' v' a]"
    by (simp add: grid_body1_drawn)
  have runs: "is_double g \<and> 0 < g \<and> grid_loop1 c' v' (Fin g) (Fin g) q = Some q' \<longrightarrow>
            (\<exists>as. drawn q' = drawn q @ map (spec_stroke c' v') as
               \<and> (\<forall>t\<in>set as. is_double t \<and> 0 < t))"
  proof
    assume a: "is_double g \<and> 0 < g \<and> grid_loop1 c' v' (Fin g) (Fin g) q = Some q'"
    then have "grid_loop1 c' v' (Fin g) (Fin g) q = Some q'" by simp
    from grid_loop1_returns [OF this] a
    show "\<exists>as. drawn q' = drawn q @ map (spec_stroke c' v') as
               \<and> (\<forall>t\<in>set as. is_double t \<and> 0 < t)"
      by blast
  qed
  from scen w light_less_heavy body runs show ?thesis by blast
qed

theorem grid_major_lines_witness:
  "x (bottom_right64 view0) = Fin 4 \<and> (1::real) \<le> 4 \<and> (4::real) \<le> 2 ^ 50
   \<and> x (top_left64 view0) = Fin 0 \<and> - (2 ^ 50) \<le> (0::real)
   \<and> y (top_left64 view0) = Fin 4 \<and> (4::real) \<le> 2 ^ 50
   \<and> y (bottom_right64 view0) = Fin (- 4) \<and> - (2 ^ 50) \<le> (- 4::real)
   \<and> (\<exists>ctx' post. grid canvas800 view0 (Fin (1 / 2)) ctx0 = Some ctx'
         \<and> drawn ctx' =
             [axis_h canvas800 view0, axis_v canvas800 view0,
              spec_stroke canvas800 view0 (1 / 2), spec_stroke canvas800 view0 1,
              spec_stroke canvas800 view0 (3 / 2), spec_stroke canvas800 view0 2,
              spec_stroke canvas800 view0 (5 / 2), spec_stroke canvas800 view0 3,
              spec_stroke canvas800 view0 (7 / 2), spec_stroke canvas800 view0 4] @ post
         \<and> (\<forall>s\<in>set post. s_width s = lit (2 / 10)))
   \<and> is_double (1131529406376837 / 562949953421312)
   \<and> (0::real) \<le> 1131529406376837 / 562949953421312
   \<and> drawn (grid_body1 canvas800 view0 (Fin (1131529406376837 / 562949953421312)) ctx0)
       = [spec_stroke canvas800 view0 (1131529406376837 / 562949953421312)]
   \<and> s_width (spec_stroke canvas800 view0 (1131529406376837 / 562949953421312)) = lit (8 / 10)
   \<and> is_double 3 \<and> (0::real) < 3
   \<and> grid_loop1 canvas800 view0 (Fin 3) (Fin 3) ctx0
       = Some (grid_body1 canvas800 view0 (Fin 3) ctx0)
   \<and> drawn (grid_body1 canvas800 view0 (Fin 3) ctx0) = [spec_stroke canvas800 view0 3]"
proof -
  have h: "x (bottom_right64 view0) = Fin 4" "x (top_left64 view0) = Fin 0"
    "y (top_left64 view0) = Fin 4" "y (bottom_right64 view0) = Fin (- 4)"
    by (simp_all add: corners_view0)
  have b: "(1::real) \<le> 4" "(4::real) \<le> 2 ^ 50" "- (2 ^ 50) \<le> (0::real)"
    "- (2 ^ 50) \<le> (- 4::real)"
    by simp_all
  have d201: "is_double (1131529406376837 / 562949953421312)"
    using round64_exact [of 4526117625507348 "- 51"]
    by (simp add: is_double_def huge_def power_int_minus)
  have fl201: "\<lfloor>1131529406376837 / 562949953421312 :: real\<rfloor> = 2"
    by (simp add: floor_eq_iff)
  have w201: "s_width (spec_stroke canvas800 view0 (1131529406376837 / 562949953421312))
      = lit (8 / 10)"
    by (simp add: spec_stroke_def spec_line_width_def fl201)
  have d3: "is_double 3" using is_double_int [of 3] by simp
  have r6: "round64 6 = Fin 6" using round64_of_int [of 6] by simp
  have "grid_loop1 canvas800 view0 (Fin 3) (Fin 3) ctx0 =
      grid_loop1 canvas800 view0 (Fin 3) (Fin 6) (grid_body1 canvas800 view0 (Fin 3) ctx0)"
    using r6 by (subst grid_loop1.simps) (simp add: corners_view0 fadd_def)
  also have "\<dots> = Some (grid_body1 canvas800 view0 (Fin 3) ctx0)"
    by (subst grid_loop1.simps) (simp add: corners_view0)
  finally have run: "grid_loop1 canvas800 view0 (Fin 3) (Fin 3) ctx0
       = Some (grid_body1 canvas800 view0 (Fin 3) ctx0)" .
  have fl8: "\<lfloor>2 * 4 :: real\<rfloor> = 8" by simp
  have upto: "[3..8::int] = [3, 4, 5, 6, 7, 8]"
    by (simp add: upto_rec1)
  have e: "drawn ctx0 = []" by (simp add: ctx0_def)
  note t = grid_major_lines [OF h(1) b(1,2) h(2) b(3) h(3) b(2) h(4) b(4),
      where c = canvas800 and ctx = ctx0 and a = "1131529406376837 / 562949953421312"
        and c' = canvas800 and v' = view0 and q = ctx0 and g = 3
        and q' = "grid_body1 canvas800 view0 (Fin 3) ctx0"]
  have scen: "\<exists>ctx' post. grid canvas800 view0 (Fin (1 / 2)) ctx0 = Some ctx'
         \<and> drawn ctx' =
             [axis_h canvas800 view0, axis_v canvas800 view0,
              spec_stroke canvas800 view0 (1 / 2), spec_stroke canvas800 view0 1,
              spec_stroke canvas800 view0 (3 / 2), spec_stroke canvas800 view0 2,
              spec_stroke canvas800 view0 (5 / 2), spec_stroke canvas800 view0 3,
              spec_stroke canvas800 view0 (7 / 2), spec_stroke canvas800 view0 4] @ post
         \<and> (\<forall>s\<in>set post. s_width s = lit (2 / 10))"
    using t by (simp add: fl8 upto e)
  have body: "drawn (grid_body1 canvas800 view0 (Fin (1131529406376837 / 562949953421312)) ctx0)
       = [spec_stroke canvas800 view0 (1131529406376837 / 562949953421312)]"
    using t d201 by (simp add: e)
  have three: "drawn (grid_body1 canvas800 view0 (Fin 3) ctx0) = [spec_stroke canvas800 view0 3]"
    using grid_body1_drawn [OF d3, of canvas800 view0 ctx0] by (simp add: e)
  show ?thesis
    using h b scen d201 body w201 d3 run three by simp
qed

end

